theory Spec2Isabelle
  imports Complex_Main "HOL-Library.Product_Lexorder"
begin

section \<open>Exceptions and the \<open>bisect\<close> module\<close>

text \<open>
  The exceptions that \<open>zigpy/datastructures.py\<close> raises or lets through. \<open>OtherError\<close>
  stands for any caller-supplied exception that is not a \<open>CancelledError\<close>.
\<close>

datatype exn = CancelledError | ValueError | RuntimeError | TypeError | KeyError | OtherError

text \<open>
  \<open>bisect.bisect_right(a, x)\<close>: the binary search of the standard library,
  \<^verbatim>\<open>while lo < hi: mid = (lo + hi) // 2; if x < a[mid]: hi = mid else: lo = mid + 1\<close>.
  The comparison \<open>x < a[mid]\<close> is a parameter: it answers \<open>None\<close> where Python raises
  \<open>TypeError\<close> because two payloads that do not support \<open><\<close> have to be compared.
\<close>

function bisect_right :: "('e \<Rightarrow> 'e \<Rightarrow> bool option) \<Rightarrow> 'e list \<Rightarrow> 'e \<Rightarrow> nat \<Rightarrow> nat \<Rightarrow> nat option" where
  "bisect_right lt a x lo hi =
     (if lo < hi then
        (let mid = (lo + hi) div 2 in
         case lt x (a ! mid) of
           None \<Rightarrow> None
         | Some b \<Rightarrow> if b then bisect_right lt a x lo mid else bisect_right lt a x (mid + 1) hi)
      else Some lo)"
  by pat_completeness auto
termination
  by (relation "measure (\<lambda>(lt, a, x, lo, hi). hi - lo)") auto

declare bisect_right.simps [simp del]

text \<open>\<open>bisect.insort_right(a, x)\<close>: \<open>a.insert(bisect_right(a, x), x)\<close>.\<close>

definition insort_right :: "('e \<Rightarrow> 'e \<Rightarrow> bool option) \<Rightarrow> 'e list \<Rightarrow> 'e \<Rightarrow> 'e list option" where
  "insort_right lt a x =
     (case bisect_right lt a x 0 (length a) of
        None \<Rightarrow> None
      | Some lo \<Rightarrow> Some (take lo a @ x # drop lo a))"

text \<open>
  Python's \<open><\<close> on 3-tuples \<open>(k1, k2, payload)\<close>: the first position where the tuples differ
  decides; the payloads are looked at only when both key components are equal, and then
  \<open>payload_lt\<close> answers (\<open>None\<close>: the payloads are not orderable).
\<close>

definition tuple_lt :: "('p \<Rightarrow> 'p \<Rightarrow> bool option) \<Rightarrow> ('a::linorder) \<times> ('b::linorder) \<times> 'p \<Rightarrow> 'a \<times> 'b \<times> 'p \<Rightarrow> bool option" where
  "tuple_lt payload_lt x y =
     (case x of (x1, x2, xp) \<Rightarrow> case y of (y1, y2, yp) \<Rightarrow>
        if x1 \<noteq> y1 then Some (x1 < y1)
        else if x2 \<noteq> y2 then Some (x2 < y2)
        else if xp = yp then Some False
        else payload_lt xp yp)"

definition prefix :: "'a \<times> 'b \<times> 'p \<Rightarrow> 'a \<times> 'b" where
  "prefix x = (fst x, fst (snd x))"

section \<open>\<open>PriorityDynamicBoundedSemaphore\<close>\<close>

text \<open>
  An \<open>asyncio.Future\<close> is pending, holds a result, is cancelled, or holds an exception.
  Futures are objects shared between the waiter list and the suspended \<open>acquire\<close> that created
  them, so they live in a store (a list indexed by the future's identity).
\<close>

datatype fut_state = Pending | Result | Cancelled | Exception exn

definition fut_get :: "fut_state list \<Rightarrow> nat \<Rightarrow> fut_state" where
  "fut_get fs f = (if f < length fs then fs ! f else Pending)"

definition fut_done :: "fut_state list \<Rightarrow> nat \<Rightarrow> bool" where
  "fut_done fs f = (fut_get fs f \<noteq> Pending)"

definition fut_cancelled :: "fut_state list \<Rightarrow> nat \<Rightarrow> bool" where
  "fut_cancelled fs f = (fut_get fs f = Cancelled)"

text \<open>A waiter is the tuple \<open>(-priority, count, fut)\<close> of \<open>acquire\<close>.\<close>

type_synonym waiter = "int \<times> int \<times> nat"

record sem_state =
  s_value :: int
  s_max_value :: int
  s_comparison_counter :: int
  s_waiters :: "waiter list"
  s_loop :: "nat option"
  futs :: "fut_state list"

text \<open>\<open>__init__(value)\<close>; the store of futures starts empty.\<close>

definition sem_init :: "int \<Rightarrow> sem_state" where
  "sem_init v = \<lparr>s_value = v, s_max_value = v, s_comparison_counter = 0, s_waiters = [],
                 s_loop = None, futs = []\<rparr>"

text \<open>\<open>_get_loop\<close>, with the running event loop as argument.\<close>

definition get_loop :: "nat \<Rightarrow> sem_state \<Rightarrow> exn option \<times> sem_state" where
  "get_loop loop s =
     (let s1 = (if s_loop s = None then s\<lparr>s_loop := Some loop\<rparr> else s)
      in if s_loop s1 \<noteq> Some loop then (Some RuntimeError, s1) else (None, s1))"

text \<open>The loop of \<open>_wake_up_next\<close>: the future of the first waiter that is not done.\<close>

fun first_not_done :: "fut_state list \<Rightarrow> waiter list \<Rightarrow> nat option" where
  "first_not_done fs [] = None"
| "first_not_done fs (w # ws) =
     (case w of (_, _, fut) \<Rightarrow> if \<not> fut_done fs fut then Some fut else first_not_done fs ws)"

definition wake_up_next :: "sem_state \<Rightarrow> bool \<times> sem_state" where
  "wake_up_next s =
     (if s_waiters s = [] then (False, s)
      else case first_not_done (futs s) (s_waiters s) of
             Some fut \<Rightarrow> (True, s\<lparr>s_value := s_value s - 1, futs := (futs s)[fut := Result]\<rparr>)
           | None \<Rightarrow> (False, s))"

fun cancel_waiting_loop :: "exn \<Rightarrow> waiter list \<Rightarrow> fut_state list \<Rightarrow> fut_state list" where
  "cancel_waiting_loop exc [] fs = fs"
| "cancel_waiting_loop exc (w # ws) fs =
     (case w of (_, _, fut) \<Rightarrow>
        cancel_waiting_loop exc ws (if \<not> fut_done fs fut then fs[fut := Exception exc] else fs))"

definition cancel_waiting :: "exn \<Rightarrow> sem_state \<Rightarrow> sem_state" where
  "cancel_waiting exc s = s\<lparr>futs := cancel_waiting_loop exc (s_waiters s) (futs s)\<rparr>"

text \<open>\<open>for _ in range(n): if not self._wake_up_next(): break\<close>\<close>

fun wake_up_to :: "nat \<Rightarrow> sem_state \<Rightarrow> sem_state" where
  "wake_up_to 0 s = s"
| "wake_up_to (Suc n) s =
     (let (woke, s') = wake_up_next s in if woke then wake_up_to n s' else s')"

text \<open>The setter of \<open>max_value\<close>.\<close>

definition set_max_value :: "int \<Rightarrow> sem_state \<Rightarrow> exn option \<times> sem_state" where
  "set_max_value new_value s =
     (if new_value < 0 then (Some ValueError, s)
      else let delta = new_value - s_max_value s;
               s1 = s\<lparr>s_value := s_value s + delta, s_max_value := s_max_value s + delta\<rparr>
           in (None, wake_up_to (nat (max 0 delta)) s1))"

definition locked :: "sem_state \<Rightarrow> bool" where
  "locked s = (s_value s \<le> 0 \<or> list_ex (\<lambda>(_, _, w). \<not> fut_cancelled (futs s) w) (s_waiters s))"

text \<open>
  \<open>acquire\<close> up to its suspension point \<open>await fut\<close>: it returns at once, or raises before
  the \<open>try\<close> (\<open>_get_loop\<close>, or \<open>insort_right\<close> having to compare two futures), or is suspended
  holding its tuple \<open>obj\<close>.
\<close>

datatype acquire_start_result = Acquired | Suspended waiter | Raised exn

definition waiter_lt :: "waiter \<Rightarrow> waiter \<Rightarrow> bool option" where
  "waiter_lt = tuple_lt (\<lambda>_ _. None)"

definition acquire_start :: "nat \<Rightarrow> int \<Rightarrow> sem_state \<Rightarrow> acquire_start_result \<times> sem_state" where
  "acquire_start loop priority s =
     (if \<not> locked s then (Acquired, s\<lparr>s_value := s_value s - 1\<rparr>)
      else
        let s1 = s\<lparr>s_comparison_counter := s_comparison_counter s + 1\<rparr> in
        case get_loop loop s1 of
          (Some e, s2) \<Rightarrow> (Raised e, s2)
        | (None, s2) \<Rightarrow>
            let fut = length (futs s2);
                s3 = s2\<lparr>futs := futs s2 @ [Pending]\<rparr>;
                obj = (- priority, s_comparison_counter s3, fut)
            in case insort_right waiter_lt (s_waiters s3) obj of
                 None \<Rightarrow> (Raised TypeError, s3)
               | Some ws \<Rightarrow> (Suspended obj, s3\<lparr>s_waiters := ws\<rparr>))"

text \<open>The last \<open>finally\<close> of \<open>acquire\<close>: \<open>while self._value > 0: if not self._wake_up_next(): break\<close>.\<close>

function top_up :: "sem_state \<Rightarrow> sem_state" where
  "top_up s =
     (if s_value s > 0 then
        (let (woke, s') = wake_up_next s in if woke then top_up s' else s')
      else s)"
  by pat_completeness auto
termination
proof (relation "measure (\<lambda>s. nat (s_value s))")
  show "wf (measure (\<lambda>s. nat (s_value s)))" by simp
next
  fix s :: sem_state and x :: "bool \<times> sem_state" and woke s'
  assume "0 < s_value s" "x = wake_up_next s" "(woke, s') = x" "woke"
  then have "wake_up_next s = (True, s')" by simp
  then have "s_value s' = s_value s - 1"
    by (auto simp: wake_up_next_def split: if_splits option.splits)
  with \<open>0 < s_value s\<close> show "(s', s) \<in> measure (\<lambda>s. nat (s_value s))" by simp
qed

declare top_up.simps [simp del]

text \<open>
  \<open>acquire\<close> from \<open>await fut\<close> on. \<open>thrown\<close> says that the task was cancelled and a
  \<open>CancelledError\<close> is thrown into the coroutine at the \<open>await\<close>; otherwise the \<open>await\<close> ends
  with what the future holds, and a pending future leaves the coroutine suspended (\<open>None\<close>).
  The result is the exception \<open>acquire\<close> raises (\<open>None\<close>: it returns \<open>True\<close>) and the state.
\<close>

definition await_fut :: "bool \<Rightarrow> fut_state list \<Rightarrow> nat \<Rightarrow> exn option option" where
  "await_fut thrown fs fut =
     (if thrown then Some (Some CancelledError)
      else case fut_get fs fut of
             Pending \<Rightarrow> None
           | Result \<Rightarrow> Some None
           | Cancelled \<Rightarrow> Some (Some CancelledError)
           | Exception e \<Rightarrow> Some (Some e))"

definition acquire_resume :: "bool \<Rightarrow> waiter \<Rightarrow> sem_state \<Rightarrow> (exn option \<times> sem_state) option" where
  "acquire_resume thrown obj s =
     (case obj of (_, _, fut) \<Rightarrow>
      case await_fut thrown (futs s) fut of
        None \<Rightarrow> None
      | Some r \<Rightarrow>
          if obj \<notin> set (s_waiters s) then Some (Some ValueError, top_up s)
          else
            let s1 = s\<lparr>s_waiters := remove1 obj (s_waiters s)\<rparr> in
            if r = Some CancelledError then
              let s2 = (if fut_done (futs s1) fut \<and> \<not> fut_cancelled (futs s1) fut
                        then s1\<lparr>s_value := s_value s1 + 1\<rparr> else s1)
              in Some (Some CancelledError, top_up s2)
            else Some (r, top_up s1))"

definition release :: "sem_state \<Rightarrow> exn option \<times> sem_state" where
  "release s =
     (if s_value s \<ge> s_max_value s then (Some ValueError, s)
      else (None, snd (wake_up_next (s\<lparr>s_value := s_value s + 1\<rparr>))))"

subsection \<open>The tasks around the semaphore\<close>

text \<open>
  What \<open>asyncio\<close> does with the coroutines of \<open>acquire\<close>: a task suspended at \<open>await fut\<close>
  is recorded with its tuple \<open>obj\<close> and its \<open>_must_cancel\<close> flag. \<open>Task.cancel()\<close> cancels the
  future the task waits for when that future is still pending; when the future is already
  done it sets \<open>_must_cancel\<close>, and the task's next step throws \<open>CancelledError\<close> into the
  coroutine. \<open>held\<close> counts the permits handed to callers and not yet released; a
  \<open>release\<close> is only issued by a caller that holds a permit.
\<close>

record world =
  sem :: sem_state
  suspended :: "(waiter \<times> bool) list"
  held :: nat

datatype event =
    EvAcquire int
  | EvRelease
  | EvSetMax int
  | EvCancelWaiting exn
  | EvCancelTask nat
  | EvResume nat

definition world_init :: "int \<Rightarrow> world" where
  "world_init v = \<lparr>sem = sem_init v, suspended = [], held = 0\<rparr>"

definition task_cancel :: "nat \<Rightarrow> world \<Rightarrow> world" where
  "task_cancel i w =
     (if i < length (suspended w) then
        (case suspended w ! i of (obj, _) \<Rightarrow>
           let fut = snd (snd obj) in
           if \<not> fut_done (futs (sem w)) fut
           then w\<lparr>sem := (sem w)\<lparr>futs := (futs (sem w))[fut := Cancelled]\<rparr>\<rparr>
           else w\<lparr>suspended := (suspended w)[i := (obj, True)]\<rparr>)
      else w)"

definition task_resume :: "nat \<Rightarrow> world \<Rightarrow> world" where
  "task_resume i w =
     (if i < length (suspended w) then
        (case suspended w ! i of (obj, must_cancel) \<Rightarrow>
           case acquire_resume must_cancel obj (sem w) of
             None \<Rightarrow> w
           | Some (r, s') \<Rightarrow>
               w\<lparr>sem := s',
                 suspended := take i (suspended w) @ drop (Suc i) (suspended w),
                 held := (if r = None then held w + 1 else held w)\<rparr>)
      else w)"

fun step :: "event \<Rightarrow> world \<Rightarrow> world" where
  "step (EvAcquire priority) w =
     (case acquire_start 0 priority (sem w) of
        (Acquired, s') \<Rightarrow> w\<lparr>sem := s', held := held w + 1\<rparr>
      | (Suspended obj, s') \<Rightarrow> w\<lparr>sem := s', suspended := suspended w @ [(obj, False)]\<rparr>
      | (Raised e, s') \<Rightarrow> w\<lparr>sem := s'\<rparr>)"
| "step EvRelease w =
     (if held w = 0 then w
      else w\<lparr>sem := snd (release (sem w)), held := held w - 1\<rparr>)"
| "step (EvSetMax n) w = w\<lparr>sem := snd (set_max_value n (sem w))\<rparr>"
| "step (EvCancelWaiting exc) w = w\<lparr>sem := cancel_waiting exc (sem w)\<rparr>"
| "step (EvCancelTask i) w = task_cancel i w"
| "step (EvResume i) w = task_resume i w"

fun exec :: "event list \<Rightarrow> world \<Rightarrow> world" where
  "exec [] w = w"
| "exec (e # es) w = exec es (step e w)"

section \<open>\<open>ReschedulableTimeout\<close>\<close>

text \<open>
  An \<open>asyncio.TimerHandle\<close> made by \<open>loop.call_at\<close>: its time, whether it was cancelled, and
  whether the loop has run it already. The handles live in a store; \<open>t_timer\<close> is
  \<open>self._timer\<close>. The callback is opaque: \<open>calls\<close> records the clock reading of each of
  its invocations.
\<close>

record handle =
  h_when :: real
  h_cancelled :: bool
  h_run :: bool

record timeout_state =
  t_timer :: "nat option"
  t_when :: real
  handles :: "handle list"
  calls :: "real list"

definition timeout_init :: timeout_state where
  "timeout_init = \<lparr>t_timer = None, t_when = 0, handles = [], calls = []\<rparr>"

definition handle_cancel :: "nat \<Rightarrow> timeout_state \<Rightarrow> timeout_state" where
  "handle_cancel h st =
     (if h < length (handles st)
      then st\<lparr>handles := (handles st)[h := (handles st ! h)\<lparr>h_cancelled := True\<rparr>]\<rparr>
      else st)"

definition call_at :: "real \<Rightarrow> timeout_state \<Rightarrow> nat \<times> timeout_state" where
  "call_at w st =
     (length (handles st),
      st\<lparr>handles := handles st @ [\<lparr>h_when = w, h_cancelled = False, h_run = False\<rparr>]\<rparr>)"

text \<open>\<open>_reschedule\<close>\<close>

definition reschedule_timer :: "timeout_state \<Rightarrow> timeout_state" where
  "reschedule_timer st =
     (let st1 = (case t_timer st of Some h \<Rightarrow> handle_cancel h st | None \<Rightarrow> st);
          (h, st2) = call_at (t_when st1) st1
      in st2\<lparr>t_timer := Some h\<rparr>)"

text \<open>\<open>_timeout_trigger\<close>, with the reading of \<open>loop.time()\<close> as argument.\<close>

definition timeout_trigger :: "real \<Rightarrow> timeout_state \<Rightarrow> timeout_state" where
  "timeout_trigger now st =
     (if t_when st > now then reschedule_timer st
      else st\<lparr>t_timer := None, calls := calls st @ [now]\<rparr>)"

definition reschedule :: "real \<Rightarrow> real \<Rightarrow> timeout_state \<Rightarrow> timeout_state" where
  "reschedule delay now st =
     (let st1 = st\<lparr>t_when := now + delay\<rparr> in
      if (case t_timer st1 of None \<Rightarrow> True | Some h \<Rightarrow> h_when (handles st1 ! h) > t_when st1)
      then reschedule_timer st1 else st1)"

definition cancel :: "timeout_state \<Rightarrow> timeout_state" where
  "cancel st =
     (case t_timer st of
        Some h \<Rightarrow> (handle_cancel h st)\<lparr>t_timer := None\<rparr>
      | None \<Rightarrow> st)"

text \<open>
  The event loop runs a handle that is neither cancelled nor run yet, once, at clock reading
  \<open>now\<close>; any other handle is never run (\<open>None\<close>).
\<close>

definition live :: "timeout_state \<Rightarrow> nat \<Rightarrow> bool" where
  "live st h = (h < length (handles st) \<and> \<not> h_cancelled (handles st ! h) \<and> \<not> h_run (handles st ! h))"

definition fire :: "nat \<Rightarrow> real \<Rightarrow> timeout_state \<Rightarrow> timeout_state option" where
  "fire h now st =
     (if live st h
      then Some (timeout_trigger now (st\<lparr>handles := (handles st)[h := (handles st ! h)\<lparr>h_run := True\<rparr>]\<rparr>))
      else None)"

datatype timer_event = Reschedule real real | Cancel | Fire nat real

fun timer_step :: "timer_event \<Rightarrow> timeout_state \<Rightarrow> timeout_state" where
  "timer_step (Reschedule delay now) st = reschedule delay now st"
| "timer_step Cancel st = cancel st"
| "timer_step (Fire h now) st = (case fire h now st of Some st' \<Rightarrow> st' | None \<Rightarrow> st)"

fun timer_exec :: "timer_event list \<Rightarrow> timeout_state \<Rightarrow> timeout_state" where
  "timer_exec [] st = st"
| "timer_exec (e # es) st = timer_exec es (timer_step e st)"

section \<open>\<open>Debouncer\<close>\<close>

text \<open>
  The tracked objects are of any type \<open>'a\<close>; \<open>payload_lt\<close> is their \<open><\<close>, \<open>None\<close> where
  Python raises \<open>TypeError\<close>. Times are the readings of the monotonic clock, taken as reals.
\<close>

record 'a debouncer =
  d_times :: "'a \<rightharpoonup> real"
  d_queue :: "(real \<times> int \<times> 'a) list"
  d_last_time :: real
  d_dedup_counter :: int

definition debouncer_init :: "'a debouncer" where
  "debouncer_init = \<lparr>d_times = Map.empty, d_queue = [], d_last_time = 0, d_dedup_counter = 0\<rparr>"

text \<open>\<open>clean(now)\<close>; \<open>self._times.pop(obj)\<close> raises \<open>KeyError\<close> for a missing key.\<close>

function clean :: "real \<Rightarrow> 'a debouncer \<Rightarrow> exn option \<times> 'a debouncer" where
  "clean now s =
     (if d_queue s \<noteq> [] \<and> - fst (last (d_queue s)) < now then
        (let obj = snd (snd (last (d_queue s)));
             s1 = s\<lparr>d_queue := butlast (d_queue s)\<rparr>
         in if d_times s1 obj = None then (Some KeyError, s1)
            else clean now (s1\<lparr>d_times := (d_times s1)(obj := None)\<rparr>))
      else (None, s))"
  by pat_completeness auto
termination
  by (relation "measure (\<lambda>(now, s). length (d_queue s))") auto

declare clean.simps [simp del]

definition is_filtered :: "'a \<Rightarrow> real \<Rightarrow> 'a debouncer \<Rightarrow> (exn + bool) \<times> 'a debouncer" where
  "is_filtered obj now s =
     (case clean now s of
        (Some e, s') \<Rightarrow> (Inl e, s')
      | (None, s') \<Rightarrow> (Inr (d_times s' obj \<noteq> None), s'))"

text \<open>\<open>filter(obj, expire_in)\<close>, with the reading of \<open>loop.time()\<close> as argument \<open>now\<close>.\<close>

definition filter_deb ::
  "('a \<Rightarrow> 'a \<Rightarrow> bool option) \<Rightarrow> 'a \<Rightarrow> real \<Rightarrow> real \<Rightarrow> 'a debouncer \<Rightarrow> (exn + bool) \<times> 'a debouncer" where
  "filter_deb payload_lt obj expire_in now s =
     (let s1 = (if now > d_last_time s then s\<lparr>d_last_time := now, d_dedup_counter := 0\<rparr> else s);
          s2 = s1\<lparr>d_dedup_counter := d_dedup_counter s1 + 1\<rparr>
      in case is_filtered obj now s2 of
           (Inl e, s3) \<Rightarrow> (Inl e, s3)
         | (Inr True, s3) \<Rightarrow> (Inr True, s3)
         | (Inr False, s3) \<Rightarrow>
             let s4 = s3\<lparr>d_times := (d_times s3)(obj \<mapsto> now + expire_in)\<rparr> in
             case insort_right (tuple_lt payload_lt) (d_queue s4)
                    (- (now + expire_in), d_dedup_counter s4, obj) of
               None \<Rightarrow> (Inl TypeError, s4)
             | Some q \<Rightarrow> (Inr False, s4\<lparr>d_queue := q\<rparr>))"

section \<open>Example runs\<close>

text \<open>
  A semaphore of capacity 1 whose permit is taken, with one waiter of priority 5 queued.
\<close>

definition waiting_example :: sem_state where
  "waiting_example = sem (exec [EvAcquire 0, EvAcquire 5] (world_init 1))"

text \<open>
  A semaphore of capacity 1: the permit is taken, a second \<open>acquire\<close> is suspended,
  \<open>cancel_waiting\<close> sets an exception on its future, the suspended task is cancelled before it
  runs again, the holder releases, and then the suspended task resumes.
\<close>

definition over_release_trace :: "event list" where
  "over_release_trace =
     [EvAcquire 0, EvAcquire 0, EvCancelWaiting OtherError, EvCancelTask 0, EvRelease, EvResume 0]"

text \<open>The \<open><\<close> of objects of a class that defines no ordering: every comparison raises.\<close>

definition unorderable :: "'a \<Rightarrow> 'a \<Rightarrow> bool option" where
  "unorderable x y = None"

text \<open>
  A debouncer after \<open>filter(a, 2.0)\<close> at clock reading 1.0; the tracked objects are
  identified by numbers.
\<close>

definition collision_first :: "nat debouncer" where
  "collision_first = snd (filter_deb unorderable 0 2 1 debouncer_init)"

section \<open>Notions used to state the properties\<close>

text \<open>
  The futures of the queued waiters that are not done, in queue order; setting a result on
  each future of a list; and the well-formedness of the store: every queued waiter has a
  future of its own, which exists.
\<close>

definition pending_futs :: "fut_state list \<Rightarrow> waiter list \<Rightarrow> nat list" where
  "pending_futs fs ws = filter (\<lambda>f. \<not> fut_done fs f) (map (\<lambda>w. snd (snd w)) ws)"

definition set_results :: "nat list \<Rightarrow> fut_state list \<Rightarrow> fut_state list" where
  "set_results fl fs = fold (\<lambda>f fs. fs[f := Result]) fl fs"

definition futs_wf :: "sem_state \<Rightarrow> bool" where
  "futs_wf s = (distinct (map (\<lambda>w. snd (snd w)) (s_waiters s))
                \<and> (\<forall>w\<in>set (s_waiters s). snd (snd w) < length (futs s)))"

text \<open>
  A semaphore of capacity 1 whose permit is taken, with waiters W1 (priority 5), W2
  (priority 5) and W3 (priority 10) queued in this order of arrival; their futures are 0, 1
  and 2.
\<close>

definition queue_example :: sem_state where
  "queue_example = sem (exec [EvAcquire 0, EvAcquire 5, EvAcquire 5, EvAcquire 10] (world_init 1))"

text \<open>
  A semaphore of capacity 2, both permits taken, two waiters queued; one permit is released
  and granted to the first waiter, the capacity is then set to 0, and the first waiter's task
  is cancelled before it runs again.
\<close>

definition repair_example :: sem_state where
  "repair_example =
     sem (exec [EvAcquire 0, EvAcquire 0, EvAcquire 0, EvAcquire 0, EvRelease, EvSetMax 0, EvCancelTask 0]
            (world_init 2))"

text \<open>
  A semaphore of capacity 1: the permit is taken, two waiters are queued, the permit is
  released and granted to the first waiter, whose task is cancelled before it runs again.
\<close>

definition regrant_example :: sem_state where
  "regrant_example =
     sem (exec [EvAcquire 0, EvAcquire 0, EvAcquire 0, EvRelease, EvCancelTask 0] (world_init 1))"

text \<open>
  A semaphore of capacity 1: the permit is taken, one waiter is queued, and its task is
  cancelled while its future is still pending.
\<close>

definition cancelled_example :: sem_state where
  "cancelled_example = sem (exec [EvAcquire 0, EvAcquire 0, EvCancelTask 0] (world_init 1))"

text \<open>
  What every state that the semaphore reaches satisfies: the waiter list is ordered by
  \<open>(-priority, count)\<close>, the counts in it are distinct and none exceeds the global count,
  the store of futures is well-formed, and the semaphore is unbound or bound to the one
  event loop (number 0).
\<close>

definition sem_inv :: "sem_state \<Rightarrow> bool" where
  "sem_inv s =
     (sorted (map prefix (s_waiters s))
      \<and> (\<forall>w\<in>set (s_waiters s). fst (snd w) \<le> s_comparison_counter s)
      \<and> distinct (map (\<lambda>w. fst (snd w)) (s_waiters s))
      \<and> futs_wf s
      \<and> (s_loop s = None \<or> s_loop s = Some 0))"

text \<open>
  A semaphore of capacity 1: the permit is taken, a waiter is queued, the permit is released
  and granted to the waiter, and the capacity is raised to 2 before the waiter runs again: the
  counter is 1 and the granted waiter is still in the queue.
\<close>

definition late_trace :: "event list" where
  "late_trace = [EvAcquire 0, EvAcquire 0, EvRelease, EvSetMax 2]"

definition late_example :: sem_state where
  "late_example = sem (exec late_trace (world_init 1))"

text \<open>
  For the timeout: the number of \<open>reschedule\<close> calls in a run; whether a callback is still
  to come from an armed handle; and what every state of the timeout satisfies: a handle that
  the loop may still run is the one in \<open>self._timer\<close>, and \<open>self._timer\<close> is a handle that
  exists.
\<close>

fun reschedules :: "timer_event list \<Rightarrow> nat" where
  "reschedules [] = 0"
| "reschedules (Reschedule delay now # es) = Suc (reschedules es)"
| "reschedules (e # es) = reschedules es"

definition pending_calls :: "timeout_state \<Rightarrow> nat" where
  "pending_calls st = (if \<exists>h. live st h then 1 else 0)"

definition timer_inv :: "timeout_state \<Rightarrow> bool" where
  "timer_inv st =
     ((\<forall>h. live st h \<longrightarrow> t_timer st = Some h)
      \<and> (\<forall>h. t_timer st = Some h \<longrightarrow> h < length (handles st)))"

text \<open>
  A timer held in \<open>self._timer\<close> is one that the loop will still run, and it is due no later
  than the requested deadline \<open>self._when\<close>.
\<close>

definition armed_ok :: "timeout_state \<Rightarrow> bool" where
  "armed_ok st =
     (case t_timer st of
        None \<Rightarrow> True
      | Some h \<Rightarrow> live st h \<and> h_when (handles st ! h) \<le> t_when st)"

text \<open>
  A timeout after \<open>reschedule(5)\<close> at clock reading 0 and \<open>reschedule(10)\<close> at reading 1, and
  the same after the loop has run the first timer at reading 5.
\<close>

definition timer_two_reschedules :: timeout_state where
  "timer_two_reschedules = timer_exec [Reschedule 5 0, Reschedule 10 1] timeout_init"

definition timer_after_early_fire :: timeout_state where
  "timer_after_early_fire = timer_exec [Reschedule 5 0, Reschedule 10 1, Fire 0 5] timeout_init"






section \<open>The first waiter that is not done\<close>

lemma first_not_done_None_iff:
  "first_not_done fs ws = None \<longleftrightarrow> (\<forall>w\<in>set ws. fut_done fs (snd (snd w)))"
  by (induction ws) (auto split: prod.splits)

lemma first_not_done_Some_iff:
  "first_not_done fs ws = Some f \<longleftrightarrow>
     (\<exists>pre w post. ws = pre @ w # post \<and> (\<forall>u\<in>set pre. fut_done fs (snd (snd u)))
        \<and> snd (snd w) = f \<and> \<not> fut_done fs f)"
proof (induction ws)
  case Nil
  then show ?case by simp
next
  case (Cons a ws)
  obtain p c g where a: "a = (p, c, g)" by (cases a) auto
  show ?case
  proof (cases "fut_done fs g")
    case False
    have "(\<exists>pre w post. a # ws = pre @ w # post \<and> (\<forall>u\<in>set pre. fut_done fs (snd (snd u)))
        \<and> snd (snd w) = f \<and> \<not> fut_done fs f) \<longleftrightarrow> g = f"
    proof
      assume "\<exists>pre w post. a # ws = pre @ w # post \<and> (\<forall>u\<in>set pre. fut_done fs (snd (snd u)))
        \<and> snd (snd w) = f \<and> \<not> fut_done fs f"
      then obtain pre w post where h: "a # ws = pre @ w # post" "\<forall>u\<in>set pre. fut_done fs (snd (snd u))"
        "snd (snd w) = f" by blast
      show "g = f"
      proof (cases pre)
        case Nil
        with h a show ?thesis by auto
      next
        case (Cons b pre')
        with h a False show ?thesis by auto
      qed
    next
      assume "g = f"
      with a False have "a # ws = [] @ a # ws \<and> (\<forall>u\<in>set []. fut_done fs (snd (snd u)))
        \<and> snd (snd a) = f \<and> \<not> fut_done fs f" by simp
      then show "\<exists>pre w post. a # ws = pre @ w # post \<and> (\<forall>u\<in>set pre. fut_done fs (snd (snd u)))
        \<and> snd (snd w) = f \<and> \<not> fut_done fs f" by blast
    qed
    with a False show ?thesis by auto
  next
    case True
    have "(\<exists>pre w post. a # ws = pre @ w # post \<and> (\<forall>u\<in>set pre. fut_done fs (snd (snd u)))
        \<and> snd (snd w) = f \<and> \<not> fut_done fs f) \<longleftrightarrow>
      (\<exists>pre w post. ws = pre @ w # post \<and> (\<forall>u\<in>set pre. fut_done fs (snd (snd u)))
        \<and> snd (snd w) = f \<and> \<not> fut_done fs f)" (is "?L \<longleftrightarrow> ?R")
    proof
      assume ?L
      then obtain pre w post where h: "a # ws = pre @ w # post" "\<forall>u\<in>set pre. fut_done fs (snd (snd u))"
        "snd (snd w) = f" "\<not> fut_done fs f" by blast
      show ?R
      proof (cases pre)
        case Nil
        with h a True show ?thesis by auto
      next
        case (Cons b pre')
        with h have "ws = pre' @ w # post" "\<forall>u\<in>set pre'. fut_done fs (snd (snd u))" by auto
        with h show ?thesis by blast
      qed
    next
      assume ?R
      then obtain pre w post where h: "ws = pre @ w # post" "\<forall>u\<in>set pre. fut_done fs (snd (snd u))"
        "snd (snd w) = f" "\<not> fut_done fs f" by blast
      with a True have "a # ws = (a # pre) @ w # post" "\<forall>u\<in>set (a # pre). fut_done fs (snd (snd u))"
        by auto
      with h show ?L by blast
    qed
    with a True Cons.IH show ?thesis by simp
  qed
qed

section \<open>\<open>release\<close>\<close>

text \<open>
  Claim C5, as stated, fails: \<open>release\<close> raises whenever the counter is at least the
  capacity, not only when the two are equal. After the run \<open>over_release_trace\<close> the counter
  is 2 and the capacity 1, and \<open>release\<close> raises although they differ.
\<close>

theorem release_raises_above_capacity:
  "fst (release (sem (exec over_release_trace (world_init 1)))) = Some ValueError
   \<and> s_value (sem (exec over_release_trace (world_init 1))) \<noteq>
     s_max_value (sem (exec over_release_trace (world_init 1)))"
  by code_simp

text \<open>
  Claim C5, amended: \<open>release\<close> raises the over-release error if and only if the counter
  is greater than or equal to the capacity at entry, and then leaves the state unchanged;
  otherwise it returns normally, having incremented the counter by one and granted the first
  queued waiter whose future is not done (which takes the permit back, so that the counter is
  as at entry and that future holds a result), or, when every queued future is done, having
  only incremented the counter. \<open>release\<close> is a total function: it never suspends.
\<close>

theorem release_spec:
  "(fst (release s) = Some ValueError \<longleftrightarrow> s_max_value s \<le> s_value s)
   \<and> (s_max_value s \<le> s_value s \<longrightarrow> release s = (Some ValueError, s))
   \<and> (s_value s < s_max_value s \<longrightarrow>
        fst (release s) = None
        \<and> ((\<forall>w\<in>set (s_waiters s). fut_done (futs s) (snd (snd w)))
              \<longrightarrow> snd (release s) = s\<lparr>s_value := s_value s + 1\<rparr>)
        \<and> (\<forall>pre w post. s_waiters s = pre @ w # post
              \<and> (\<forall>u\<in>set pre. fut_done (futs s) (snd (snd u)))
              \<and> \<not> fut_done (futs s) (snd (snd w))
              \<longrightarrow> snd (release s) = s\<lparr>futs := (futs s)[snd (snd w) := Result]\<rparr>))"
proof -
  have a: "fst (release s) = Some ValueError \<longleftrightarrow> s_max_value s \<le> s_value s"
    by (simp add: release_def)
  have b: "s_max_value s \<le> s_value s \<longrightarrow> release s = (Some ValueError, s)"
    by (simp add: release_def)
  have c: "fst (release s) = None" if "s_value s < s_max_value s"
    using that by (simp add: release_def)
  have d: "snd (release s) = s\<lparr>s_value := s_value s + 1\<rparr>"
    if "s_value s < s_max_value s" "\<forall>w\<in>set (s_waiters s). fut_done (futs s) (snd (snd w))"
  proof -
    from that(2) have "first_not_done (futs s) (s_waiters s) = None"
      by (simp add: first_not_done_None_iff)
    with that(1) show ?thesis by (simp add: release_def wake_up_next_def)
  qed
  have e: "snd (release s) = s\<lparr>futs := (futs s)[snd (snd w) := Result]\<rparr>"
    if "s_value s < s_max_value s" "s_waiters s = pre @ w # post"
       "\<forall>u\<in>set pre. fut_done (futs s) (snd (snd u))" "\<not> fut_done (futs s) (snd (snd w))"
    for pre w post
  proof -
    from that have "first_not_done (futs s) (s_waiters s) = Some (snd (snd w))"
      unfolding first_not_done_Some_iff by blast
    with that(1,2) show ?thesis by (simp add: release_def wake_up_next_def)
  qed
  from a b c d e show ?thesis by blast
qed

theorem release_spec_witness:
  "s_max_value (sem_init 1) \<le> s_value (sem_init 1)
   \<and> release (sem_init 1) = (Some ValueError, sem_init 1)
   \<and> s_value waiting_example < s_max_value waiting_example
   \<and> s_waiters waiting_example = [] @ (- 5, 1, 0) # []
   \<and> \<not> fut_done (futs waiting_example) 0
   \<and> fst (release waiting_example) = None
   \<and> snd (release waiting_example) = waiting_example\<lparr>futs := (futs waiting_example)[0 := Result]\<rparr>"
proof -
  have h1: "s_max_value (sem_init 1) \<le> s_value (sem_init 1)" by code_simp
  have r1: "release (sem_init 1) = (Some ValueError, sem_init 1)"
    by (rule release_spec [of "sem_init 1", THEN conjunct2, THEN conjunct1, THEN mp, OF h1])
  have h2: "s_value waiting_example < s_max_value waiting_example" by code_simp
  have h3: "s_waiters waiting_example = [] @ (- 5, 1, 0) # []" by code_simp
  have h4: "\<not> fut_done (futs waiting_example) (snd (snd (- 5 :: int, 1 :: int, 0 :: nat)))" by code_simp
  note c = release_spec [of waiting_example, THEN conjunct2, THEN conjunct2, THEN mp, OF h2]
  have r2: "fst (release waiting_example) = None" by (rule c [THEN conjunct1])
  have h5: "\<forall>u\<in>set ([] :: waiter list). fut_done (futs waiting_example) (snd (snd u))" by simp
  have r3: "snd (release waiting_example) =
      waiting_example\<lparr>futs := (futs waiting_example)[snd (snd (- 5 :: int, 1 :: int, 0 :: nat)) := Result]\<rparr>"
    apply (rule c [THEN conjunct2, THEN conjunct2, THEN spec, THEN spec, THEN spec, THEN mp])
    apply (rule conjI)
     apply (rule h3)
    apply (rule conjI)
     apply (rule h5)
    apply (rule h4)
    done
  from h4 have h4': "\<not> fut_done (futs waiting_example) 0" by simp
  from r3 have r4: "snd (release waiting_example) = waiting_example\<lparr>futs := (futs waiting_example)[0 := Result]\<rparr>"
    by simp
  show ?thesis by (intro conjI h1 r1 h2 h3 h4' r2 r4)
qed

section \<open>The debouncer's tie-break counter\<close>

text \<open>
  Claim C9 fails on the code: the counter restarts at every new clock reading, so two entries
  recorded at different readings get the same key prefix when their expiry times coincide.
  \<open>filter(a, 2.0)\<close> at reading 1.0 records \<open>(-3.0, 1, a)\<close>; \<open>filter(b, 1.0)\<close> at reading 2.0
  then inserts \<open>(-3.0, 1, b)\<close> while the first entry is still in the index, \<open>insort_right\<close>
  has to compare \<open>b\<close> with \<open>a\<close>, and for objects without an ordering \<open>filter\<close> raises
  \<open>TypeError\<close>, after it has already stored \<open>b\<close> in the per-key map.
\<close>

theorem filter_compares_payloads:
  "fst (filter_deb unorderable (0::nat) 2 1 debouncer_init) = Inr False
   \<and> d_queue collision_first = [(- 3, 1, 0)]
   \<and> fst (filter_deb unorderable (1::nat) 1 2 collision_first) = Inl TypeError
   \<and> d_times (snd (filter_deb unorderable (1::nat) 1 2 collision_first)) 1 = Some 3
   \<and> d_queue (snd (filter_deb unorderable (1::nat) 1 2 collision_first)) = [(- 3, 1, 0)]"
  by code_simp

section \<open>The bound of the counter by the capacity\<close>

text \<open>
  Claim C10 fails on the code. In \<open>acquire\<close>, the handler of \<open>CancelledError\<close> gives a permit
  back whenever the future is done and not cancelled; its comment says that the future was
  then set to \<open>True\<close> by \<open>_wake_up_next\<close>, but a future on which \<open>cancel_waiting\<close> has set an
  exception is done and not cancelled as well, and no permit was taken for it. In the run
  \<open>over_release_trace\<close> every \<open>release\<close> matches an earlier successful \<open>acquire\<close>, and the
  counter ends at 2 with capacity 1, no permit being held.
\<close>

theorem value_exceeds_max_value:
  "s_value (sem (exec over_release_trace (world_init 1))) = 2
   \<and> s_max_value (sem (exec over_release_trace (world_init 1))) = 1
   \<and> held (exec over_release_trace (world_init 1)) = 0
   \<and> s_value (sem (exec (take 5 over_release_trace) (world_init 1))) = 1
   \<and> futs (sem (exec (take 5 over_release_trace) (world_init 1))) = [Exception OtherError]"
  by code_simp

section \<open>Granting several waiters\<close>

lemma first_not_done_pending:
  "first_not_done fs ws = (case pending_futs fs ws of [] \<Rightarrow> None | f # _ \<Rightarrow> Some f)"
  by (induction ws) (auto simp: pending_futs_def split: prod.splits)

lemma fut_done_update:
  "f < length fs \<Longrightarrow> fut_done (fs[f := Result]) g = (g = f \<or> fut_done fs g)"
  by (auto simp: fut_done_def fut_get_def nth_list_update)

lemma pending_futs_update:
  assumes "pending_futs fs ws = f # rest" "distinct (map (\<lambda>w. snd (snd w)) ws)" "f < length fs"
  shows "pending_futs (fs[f := Result]) ws = rest"
proof -
  let ?fl = "map (\<lambda>w. snd (snd w)) ws"
  have "pending_futs (fs[f := Result]) ws = filter (\<lambda>g. g \<noteq> f) (filter (\<lambda>g. \<not> fut_done fs g) ?fl)"
    using assms(3) by (auto simp: pending_futs_def fut_done_update intro: filter_cong)
  also have "\<dots> = filter (\<lambda>g. g \<noteq> f) (f # rest)"
    using assms(1) by (simp add: pending_futs_def)
  also have "\<dots> = rest"
  proof -
    have "distinct (f # rest)"
      using assms(1,2) distinct_filter [of ?fl "\<lambda>g. \<not> fut_done fs g"]
      by (simp add: pending_futs_def)
    then have "f \<notin> set rest" by simp
    then show ?thesis by (auto simp: filter_id_conv)
  qed
  finally show ?thesis .
qed

lemma pending_futs_valid:
  "futs_wf s \<Longrightarrow> f \<in> set (pending_futs (futs s) (s_waiters s)) \<Longrightarrow> f < length (futs s)"
  by (auto simp: futs_wf_def pending_futs_def)

lemma wake_up_next_pending:
  "wake_up_next s =
     (case pending_futs (futs s) (s_waiters s) of
        [] \<Rightarrow> (False, s)
      | f # _ \<Rightarrow> (True, s\<lparr>s_value := s_value s - 1, futs := (futs s)[f := Result]\<rparr>))"
proof (cases "s_waiters s = []")
  case True
  then show ?thesis by (simp add: wake_up_next_def pending_futs_def)
next
  case False
  then show ?thesis
    by (simp add: wake_up_next_def first_not_done_pending split: list.splits)
qed

lemma wake_up_to_char:
  "futs_wf s \<Longrightarrow>
   wake_up_to n s =
     s\<lparr>s_value := s_value s - int (min n (length (pending_futs (futs s) (s_waiters s)))),
       futs := set_results (take n (pending_futs (futs s) (s_waiters s))) (futs s)\<rparr>"
proof (induction n arbitrary: s)
  case 0
  then show ?case by (simp add: set_results_def)
next
  case (Suc n)
  show ?case
  proof (cases "pending_futs (futs s) (s_waiters s)")
    case Nil
    then show ?thesis by (simp add: wake_up_next_pending set_results_def)
  next
    case (Cons f rest)
    let ?s' = "s\<lparr>s_value := s_value s - 1, futs := (futs s)[f := Result]\<rparr>"
    from Cons Suc.prems have fv: "f < length (futs s)"
      using pending_futs_valid [of s f] by simp
    from Suc.prems have wf': "futs_wf ?s'" by (simp add: futs_wf_def)
    have p': "pending_futs (futs ?s') (s_waiters ?s') = rest"
      using pending_futs_update [OF Cons _ fv] Suc.prems by (simp add: futs_wf_def)
    have "wake_up_to (Suc n) s = wake_up_to n ?s'"
      using Cons by (simp add: wake_up_next_pending)
    also have "\<dots> = ?s'\<lparr>s_value := s_value ?s' - int (min n (length rest)),
                       futs := set_results (take n rest) (futs ?s')\<rparr>"
      using Suc.IH [OF wf'] p' by simp
    finally show ?thesis using Cons by (simp add: set_results_def)
  qed
qed

lemma top_up_wake_up_to: "top_up s = wake_up_to (nat (s_value s)) s"
proof (induction s rule: top_up.induct)
  case (1 s)
  show ?case
  proof (cases "0 < s_value s")
    case False
    then show ?thesis by (simp add: top_up.simps [of s])
  next
    case pos: True
    obtain woke s' where w: "wake_up_next s = (woke, s')" by (cases "wake_up_next s") auto
    from pos obtain n where n: "nat (s_value s) = Suc n" by (cases "nat (s_value s)") auto
    show ?thesis
    proof (cases woke)
      case False
      with w pos n show ?thesis by (simp add: top_up.simps [of s])
    next
      case True
      with w have v: "s_value s' = s_value s - 1"
        by (auto simp: wake_up_next_def split: if_splits option.splits)
      with n have n': "nat (s_value s') = n" by simp
      from "1.IH" [OF pos w [symmetric] refl True] have "top_up s' = wake_up_to (nat (s_value s')) s'" .
      with w pos n n' True show ?thesis by (simp add: top_up.simps [of s])
    qed
  qed
qed

section \<open>The setter of \<open>max_value\<close>\<close>

text \<open>
  Claim C4: a negative new capacity raises \<open>ValueError\<close> and leaves the state unchanged.
  Otherwise the difference \<open>delta\<close> of the new and the old capacity is added to the counter
  and to the capacity; the first \<open>delta\<close> queued waiters that are not done (all of them when
  they are fewer, none when \<open>delta \<le> 0\<close>) are granted in queue order, each grant taking one
  permit from the counter; nothing else changes, so a decrease revokes nothing and may leave
  the counter at or below zero.
\<close>

theorem set_max_value_spec:
  "(new_value < 0 \<longrightarrow> set_max_value new_value s = (Some ValueError, s))
   \<and> (0 \<le> new_value \<and> futs_wf s \<longrightarrow>
        set_max_value new_value s =
          (None,
           s\<lparr>s_value := s_value s + (new_value - s_max_value s)
                  - int (min (nat (new_value - s_max_value s))
                             (length (pending_futs (futs s) (s_waiters s)))),
             s_max_value := new_value,
             futs := set_results (take (nat (new_value - s_max_value s))
                                       (pending_futs (futs s) (s_waiters s))) (futs s)\<rparr>))"
proof (intro conjI impI)
  assume "new_value < 0"
  then show "set_max_value new_value s = (Some ValueError, s)"
    by (simp add: set_max_value_def)
next
  assume a: "0 \<le> new_value \<and> futs_wf s"
  let ?d = "new_value - s_max_value s"
  let ?s1 = "s\<lparr>s_value := s_value s + ?d, s_max_value := new_value\<rparr>"
  from a have wf1: "futs_wf ?s1" by (simp add: futs_wf_def)
  have n: "nat (max 0 ?d) = nat ?d" by simp
  from a have "set_max_value new_value s = (None, wake_up_to (nat ?d) ?s1)"
    by (simp add: set_max_value_def Let_def n)
  then show "set_max_value new_value s =
          (None,
           s\<lparr>s_value := s_value s + (new_value - s_max_value s)
                  - int (min (nat (new_value - s_max_value s))
                             (length (pending_futs (futs s) (s_waiters s)))),
             s_max_value := new_value,
             futs := set_results (take (nat (new_value - s_max_value s))
                                       (pending_futs (futs s) (s_waiters s))) (futs s)\<rparr>)"
    using wake_up_to_char [OF wf1, of "nat ?d"] by simp
qed

theorem set_max_value_spec_witness:
  "set_max_value (- 1) queue_example = (Some ValueError, queue_example)
   \<and> 0 \<le> (3::int) \<and> futs_wf queue_example
   \<and> pending_futs (futs queue_example) (s_waiters queue_example) = [2, 0, 1]
   \<and> s_max_value queue_example = 1 \<and> s_value queue_example = 0
   \<and> set_max_value 3 queue_example =
          (None,
           queue_example\<lparr>s_value := s_value queue_example + (3 - s_max_value queue_example)
                  - int (min (nat (3 - s_max_value queue_example))
                             (length (pending_futs (futs queue_example) (s_waiters queue_example)))),
             s_max_value := 3,
             futs := set_results (take (nat (3 - s_max_value queue_example))
                                       (pending_futs (futs queue_example) (s_waiters queue_example)))
                       (futs queue_example)\<rparr>)
   \<and> s_value (snd (set_max_value 3 queue_example)) = 0
   \<and> futs (snd (set_max_value 3 queue_example)) = [Result, Pending, Result]"
proof -
  have h0: "(- 1 :: int) < 0" by simp
  have r0: "set_max_value (- 1) queue_example = (Some ValueError, queue_example)"
    by (rule set_max_value_spec [of "- 1" queue_example, THEN conjunct1, THEN mp, OF h0])
  have h1: "0 \<le> (3::int)" by simp
  have h2: "futs_wf queue_example" by code_simp
  have e1: "pending_futs (futs queue_example) (s_waiters queue_example) = [2, 0, 1]" by code_simp
  have e2: "s_max_value queue_example = 1" by code_simp
  have e3: "s_value queue_example = 0" by code_simp
  note r1 = set_max_value_spec [of 3 queue_example, THEN conjunct2, THEN mp, OF conjI [OF h1 h2]]
  have e4: "s_value (snd (set_max_value 3 queue_example)) = 0" by code_simp
  have e5: "futs (snd (set_max_value 3 queue_example)) = [Result, Pending, Result]" by code_simp
  show ?thesis by (intro conjI r0 h1 h2 e1 e2 e3 r1 e4 e5)
qed

section \<open>Cancellation of a suspended \<open>acquire\<close>\<close>

lemma distinct_map_remove1:
  "distinct (map f xs) \<Longrightarrow> distinct (map f (remove1 x xs))"
proof (induction xs)
  case Nil
  then show ?case by simp
next
  case (Cons a xs)
  have "set (remove1 x xs) \<subseteq> set xs" by (rule set_remove1_subset)
  with Cons show ?case by auto
qed

lemma futs_wf_remove1:
  "futs_wf s \<Longrightarrow> futs_wf (s\<lparr>s_waiters := remove1 obj (s_waiters s), s_value := v\<rparr>)"
  by (auto simp: futs_wf_def distinct_map_remove1 dest: notin_set_remove1)

text \<open>
  Claim C2, as stated, fails: in \<open>repair_example\<close> the first waiter was granted, the capacity
  was then lowered to 0 (counter -2), and the waiter is cancelled before it runs. The
  handler restores the permit once (counter -1) and re-raises, but the loop
  \<open>while self._value > 0\<close> does not run, and the next eligible waiter, which is queued and
  not done, is not granted. Only such a deficit prevents the grant.
\<close>

theorem acquire_cancelled_counterexample:
  "fut_get (futs repair_example) 0 = Result
   \<and> s_waiters repair_example = [(0, 1, 0), (0, 2, 1)]
   \<and> fut_get (futs repair_example) 1 = Pending
   \<and> map_option fst (acquire_resume True (0, 1, 0) repair_example) = Some (Some CancelledError)
   \<and> map_option (\<lambda>r. s_value (snd r)) (acquire_resume True (0, 1, 0) repair_example)
       = Some (s_value repair_example + 1)
   \<and> map_option (\<lambda>r. s_waiters (snd r)) (acquire_resume True (0, 1, 0) repair_example)
       = Some [(0, 2, 1)]
   \<and> map_option (\<lambda>r. fut_get (futs (snd r)) 1) (acquire_resume True (0, 1, 0) repair_example)
       = Some Pending"
  by code_simp

text \<open>
  The state in which a cancelled \<open>acquire\<close> leaves the semaphore, in closed form, for a
  waiter whose future holds a result and for one whose future is cancelled.
\<close>

lemma acquire_resume_cancelled_exact:
  assumes "futs_wf s" and "obj \<in> set (s_waiters s)" and "obj = (np, c, fut)"
  shows "(fut_get (futs s) fut = Result \<longrightarrow>
            acquire_resume True obj s =
              Some (Some CancelledError,
                    s\<lparr>s_waiters := remove1 obj (s_waiters s),
                      s_value := s_value s + 1
                        - int (min (nat (s_value s + 1))
                                   (length (pending_futs (futs s) (remove1 obj (s_waiters s))))),
                      futs := set_results (take (nat (s_value s + 1))
                                (pending_futs (futs s) (remove1 obj (s_waiters s)))) (futs s)\<rparr>))
       \<and> (fut_get (futs s) fut = Cancelled \<longrightarrow>
            acquire_resume thrown obj s =
              Some (Some CancelledError,
                    s\<lparr>s_waiters := remove1 obj (s_waiters s),
                      s_value := s_value s
                        - int (min (nat (s_value s))
                                   (length (pending_futs (futs s) (remove1 obj (s_waiters s))))),
                      futs := set_results (take (nat (s_value s))
                                (pending_futs (futs s) (remove1 obj (s_waiters s)))) (futs s)\<rparr>))"
proof (intro conjI impI)
  assume r: "fut_get (futs s) fut = Result"
  let ?s2 = "s\<lparr>s_waiters := remove1 obj (s_waiters s), s_value := s_value s + 1\<rparr>"
  have wf2: "futs_wf ?s2" using assms(1) by (rule futs_wf_remove1)
  have "acquire_resume True obj s = Some (Some CancelledError, top_up ?s2)"
    using assms(2,3) r
    by (simp add: acquire_resume_def await_fut_def fut_done_def fut_cancelled_def)
  also have "top_up ?s2 = wake_up_to (nat (s_value ?s2)) ?s2" by (rule top_up_wake_up_to)
  finally show "acquire_resume True obj s =
              Some (Some CancelledError,
                    s\<lparr>s_waiters := remove1 obj (s_waiters s),
                      s_value := s_value s + 1
                        - int (min (nat (s_value s + 1))
                                   (length (pending_futs (futs s) (remove1 obj (s_waiters s))))),
                      futs := set_results (take (nat (s_value s + 1))
                                (pending_futs (futs s) (remove1 obj (s_waiters s)))) (futs s)\<rparr>)"
    using wake_up_to_char [OF wf2, of "nat (s_value s + 1)"] by simp
next
  assume r: "fut_get (futs s) fut = Cancelled"
  let ?s1 = "s\<lparr>s_waiters := remove1 obj (s_waiters s), s_value := s_value s\<rparr>"
  have wf1: "futs_wf ?s1" using assms(1) by (rule futs_wf_remove1)
  have "acquire_resume thrown obj s = Some (Some CancelledError, top_up ?s1)"
    using assms(2,3) r
    by (simp add: acquire_resume_def await_fut_def fut_done_def fut_cancelled_def)
  also have "top_up ?s1 = wake_up_to (nat (s_value ?s1)) ?s1" by (rule top_up_wake_up_to)
  finally show "acquire_resume thrown obj s =
              Some (Some CancelledError,
                    s\<lparr>s_waiters := remove1 obj (s_waiters s),
                      s_value := s_value s
                        - int (min (nat (s_value s))
                                   (length (pending_futs (futs s) (remove1 obj (s_waiters s))))),
                      futs := set_results (take (nat (s_value s))
                                (pending_futs (futs s) (remove1 obj (s_waiters s)))) (futs s)\<rparr>)"
    using wake_up_to_char [OF wf1, of "nat (s_value s)"] by simp
qed

lemma set_results_length: "length (set_results fl fs) = length fs"
  unfolding set_results_def by (induction fl arbitrary: fs) simp_all

lemma set_results_get:
  "f < length fs \<Longrightarrow> fut_get (set_results fl fs) f = (if f \<in> set fl then Result else fut_get fs f)"
  unfolding set_results_def
proof (induction fl arbitrary: fs)
  case Nil
  then show ?case by simp
next
  case (Cons g fl)
  from Cons.prems have l: "f < length (fs[g := Result])" by simp
  show ?case
    using Cons.IH [OF l] Cons.prems
    by (auto simp: fut_get_def nth_list_update)
qed

lemma set_results_Nil: "set_results [] fs = fs"
  by (simp add: set_results_def)
text \<open>
  Claim C2, amended. When a suspended \<open>acquire\<close> is cancelled after its future was
  resolved by a grant and before the task consumed it, the waiter is removed from the queue,
  the counter is incremented exactly once, and the cancellation is re-raised: the caller
  observes \<open>CancelledError\<close>, never a successful \<open>acquire\<close>. If the counter was not negative,
  so that the restored counter is positive, the next eligible waiter (the first queued waiter
  whose future is not done) is granted; if the counter was negative (a deficit left by a
  lowered capacity) nobody is granted and the counter stays restored by one. When the
  cancellation arrives while the waiter's future is still pending, so that the future itself
  is cancelled, the waiter is removed from the queue, the counter is not incremented, and the
  cancellation is re-raised. In both cases the closing loop of \<open>acquire\<close> grants queued
  waiters in queue order while the counter is positive, one permit each; with a counter at or
  below zero, or nobody to grant, it changes nothing. Nothing is said here of a waiter whose
  future holds an exception set by \<open>cancel_waiting\<close>.
\<close>

theorem acquire_cancelled_repair:
  assumes "futs_wf s" and "obj \<in> set (s_waiters s)" and "obj = (np, c, fut)"
  shows "(fut_get (futs s) fut = Result \<longrightarrow>
            (\<exists>s'. acquire_resume True obj s = Some (Some CancelledError, s')
               \<and> s_waiters s' = remove1 obj (s_waiters s)
               \<and> s_max_value s' = s_max_value s
               \<and> s_value s' = s_value s + 1
                    - int (min (nat (s_value s + 1))
                               (length (pending_futs (futs s) (remove1 obj (s_waiters s)))))
               \<and> futs s' = set_results (take (nat (s_value s + 1))
                              (pending_futs (futs s) (remove1 obj (s_waiters s)))) (futs s)
               \<and> (0 \<le> s_value s \<longrightarrow>
                    (\<forall>f rest. pending_futs (futs s) (remove1 obj (s_waiters s)) = f # rest
                       \<longrightarrow> fut_get (futs s') f = Result))
               \<and> (s_value s < 0 \<or> pending_futs (futs s) (remove1 obj (s_waiters s)) = []
                    \<longrightarrow> s_value s' = s_value s + 1 \<and> futs s' = futs s)))
       \<and> (fut_get (futs s) fut = Cancelled \<longrightarrow>
            (\<exists>s'. acquire_resume thrown obj s = Some (Some CancelledError, s')
               \<and> s_waiters s' = remove1 obj (s_waiters s)
               \<and> s_max_value s' = s_max_value s
               \<and> s_value s' = s_value s
                    - int (min (nat (s_value s))
                               (length (pending_futs (futs s) (remove1 obj (s_waiters s)))))
               \<and> futs s' = set_results (take (nat (s_value s))
                              (pending_futs (futs s) (remove1 obj (s_waiters s)))) (futs s)
               \<and> (s_value s \<le> 0 \<or> pending_futs (futs s) (remove1 obj (s_waiters s)) = []
                    \<longrightarrow> s_value s' = s_value s \<and> futs s' = futs s)))"
proof (intro conjI impI)
  let ?P = "pending_futs (futs s) (remove1 obj (s_waiters s))"
  assume r: "fut_get (futs s) fut = Result"
  let ?s' = "s\<lparr>s_waiters := remove1 obj (s_waiters s),
               s_value := s_value s + 1 - int (min (nat (s_value s + 1)) (length ?P)),
               futs := set_results (take (nat (s_value s + 1)) ?P) (futs s)\<rparr>"
  have e: "acquire_resume True obj s = Some (Some CancelledError, ?s')"
    by (rule acquire_resume_cancelled_exact [OF assms, THEN conjunct1, THEN mp, OF r])
  have g: "fut_get (futs ?s') f = Result" if "0 \<le> s_value s" "?P = f # rest" for f rest
  proof -
    from that(2) have "f \<in> set ?P" by simp
    then have "f \<in> (\<lambda>w. snd (snd w)) ` set (remove1 obj (s_waiters s))"
      by (auto simp: pending_futs_def)
    then have "f \<in> (\<lambda>w. snd (snd w)) ` set (s_waiters s)"
      using set_remove1_subset [of obj "s_waiters s"] by blast
    with assms(1) have fl: "f < length (futs s)" by (auto simp: futs_wf_def)
    from that have "f \<in> set (take (nat (s_value s + 1)) ?P)"
      by (cases "nat (s_value s + 1)") simp_all
    with set_results_get [OF fl] show ?thesis by simp
  qed
  have d: "s_value ?s' = s_value s + 1 \<and> futs ?s' = futs s" if "s_value s < 0 \<or> ?P = []"
    using that by (auto simp: set_results_Nil)
  show "\<exists>s'. acquire_resume True obj s = Some (Some CancelledError, s')
               \<and> s_waiters s' = remove1 obj (s_waiters s)
               \<and> s_max_value s' = s_max_value s
               \<and> s_value s' = s_value s + 1 - int (min (nat (s_value s + 1)) (length ?P))
               \<and> futs s' = set_results (take (nat (s_value s + 1)) ?P) (futs s)
               \<and> (0 \<le> s_value s \<longrightarrow> (\<forall>f rest. ?P = f # rest \<longrightarrow> fut_get (futs s') f = Result))
               \<and> (s_value s < 0 \<or> ?P = [] \<longrightarrow> s_value s' = s_value s + 1 \<and> futs s' = futs s)"
  proof (rule exI [of _ ?s'], intro conjI)
    show "acquire_resume True obj s = Some (Some CancelledError, ?s')" by (rule e)
    show "0 \<le> s_value s \<longrightarrow> (\<forall>f rest. ?P = f # rest \<longrightarrow> fut_get (futs ?s') f = Result)"
      using g by blast
    show "s_value s < 0 \<or> ?P = [] \<longrightarrow> s_value ?s' = s_value s + 1 \<and> futs ?s' = futs s"
      using d by blast
  qed simp_all
next
  let ?P = "pending_futs (futs s) (remove1 obj (s_waiters s))"
  assume r: "fut_get (futs s) fut = Cancelled"
  let ?s' = "s\<lparr>s_waiters := remove1 obj (s_waiters s),
               s_value := s_value s - int (min (nat (s_value s)) (length ?P)),
               futs := set_results (take (nat (s_value s)) ?P) (futs s)\<rparr>"
  have e: "acquire_resume thrown obj s = Some (Some CancelledError, ?s')"
    by (rule acquire_resume_cancelled_exact [OF assms, THEN conjunct2, THEN mp, OF r])
  have d: "s_value ?s' = s_value s \<and> futs ?s' = futs s" if "s_value s \<le> 0 \<or> ?P = []"
    using that by (auto simp: set_results_Nil)
  show "\<exists>s'. acquire_resume thrown obj s = Some (Some CancelledError, s')
               \<and> s_waiters s' = remove1 obj (s_waiters s)
               \<and> s_max_value s' = s_max_value s
               \<and> s_value s' = s_value s - int (min (nat (s_value s)) (length ?P))
               \<and> futs s' = set_results (take (nat (s_value s)) ?P) (futs s)
               \<and> (s_value s \<le> 0 \<or> ?P = [] \<longrightarrow> s_value s' = s_value s \<and> futs s' = futs s)"
  proof (rule exI [of _ ?s'], intro conjI)
    show "acquire_resume thrown obj s = Some (Some CancelledError, ?s')" by (rule e)
    show "s_value s \<le> 0 \<or> ?P = [] \<longrightarrow> s_value ?s' = s_value s \<and> futs ?s' = futs s"
      using d by blast
  qed simp_all
qed

theorem acquire_cancelled_repair_witness:
  "futs_wf regrant_example
   \<and> (0, 1, 0) \<in> set (s_waiters regrant_example)
   \<and> fut_get (futs regrant_example) 0 = Result
   \<and> 0 \<le> s_value regrant_example
   \<and> pending_futs (futs regrant_example) (remove1 (0, 1, 0) (s_waiters regrant_example)) = [1]
   \<and> (\<exists>s'. acquire_resume True (0, 1, 0) regrant_example = Some (Some CancelledError, s')
          \<and> s_value s' = 0 \<and> fut_get (futs s') 1 = Result)
   \<and> futs_wf repair_example
   \<and> (0, 1, 0) \<in> set (s_waiters repair_example)
   \<and> fut_get (futs repair_example) 0 = Result
   \<and> s_value repair_example < 0
   \<and> (\<exists>s'. acquire_resume True (0, 1, 0) repair_example = Some (Some CancelledError, s')
          \<and> s_value s' = s_value repair_example + 1 \<and> futs s' = futs repair_example)
   \<and> futs_wf cancelled_example
   \<and> (0, 1, 0) \<in> set (s_waiters cancelled_example)
   \<and> fut_get (futs cancelled_example) 0 = Cancelled
   \<and> s_value cancelled_example \<le> 0
   \<and> (\<exists>s'. acquire_resume False (0, 1, 0) cancelled_example = Some (Some CancelledError, s')
          \<and> s_waiters s' = remove1 (0, 1, 0) (s_waiters cancelled_example)
          \<and> s_value s' = s_value cancelled_example \<and> futs s' = futs cancelled_example)"
proof -
  have h1: "futs_wf regrant_example" by code_simp
  have h2: "(0, 1, 0) \<in> set (s_waiters regrant_example)" by code_simp
  have h3: "fut_get (futs regrant_example) 0 = Result" by code_simp
  have e1: "s_value regrant_example = 0" by code_simp
  then have h4: "0 \<le> s_value regrant_example" by simp
  have e2: "pending_futs (futs regrant_example) (remove1 (0, 1, 0) (s_waiters regrant_example)) = [1]"
    by code_simp
  from acquire_cancelled_repair [OF h1 h2 refl, THEN conjunct1, THEN mp, OF h3]
  obtain s1 where a1: "acquire_resume True (0, 1, 0) regrant_example = Some (Some CancelledError, s1)"
    and a2: "s_value s1 = s_value regrant_example + 1
               - int (min (nat (s_value regrant_example + 1))
                   (length (pending_futs (futs regrant_example)
                              (remove1 (0, 1, 0) (s_waiters regrant_example)))))"
    and a3: "0 \<le> s_value regrant_example \<longrightarrow>
               (\<forall>f rest. pending_futs (futs regrant_example)
                            (remove1 (0, 1, 0) (s_waiters regrant_example)) = f # rest
                  \<longrightarrow> fut_get (futs s1) f = Result)"
    by blast
  from a2 e1 e2 have b2: "s_value s1 = 0" by simp
  from a3 h4 e2 have b3: "fut_get (futs s1) 1 = Result" by blast
  from a1 b2 b3 have r1: "\<exists>s'. acquire_resume True (0, 1, 0) regrant_example = Some (Some CancelledError, s')
          \<and> s_value s' = 0 \<and> fut_get (futs s') 1 = Result" by blast
  have k1: "futs_wf repair_example" by code_simp
  have k2: "(0, 1, 0) \<in> set (s_waiters repair_example)" by code_simp
  have k3: "fut_get (futs repair_example) 0 = Result" by code_simp
  have k4: "s_value repair_example < 0" by code_simp
  from acquire_cancelled_repair [OF k1 k2 refl, THEN conjunct1, THEN mp, OF k3]
  obtain s2 where c1: "acquire_resume True (0, 1, 0) repair_example = Some (Some CancelledError, s2)"
    and c2: "s_value repair_example < 0
               \<or> pending_futs (futs repair_example) (remove1 (0, 1, 0) (s_waiters repair_example)) = []
             \<longrightarrow> s_value s2 = s_value repair_example + 1 \<and> futs s2 = futs repair_example"
    by blast
  from c1 c2 k4 have r2: "\<exists>s'. acquire_resume True (0, 1, 0) repair_example = Some (Some CancelledError, s')
          \<and> s_value s' = s_value repair_example + 1 \<and> futs s' = futs repair_example" by blast
  have m1: "futs_wf cancelled_example" by code_simp
  have m2: "(0, 1, 0) \<in> set (s_waiters cancelled_example)" by code_simp
  have m3: "fut_get (futs cancelled_example) 0 = Cancelled" by code_simp
  have m4: "s_value cancelled_example \<le> 0" by code_simp
  from acquire_cancelled_repair [OF m1 m2 refl, THEN conjunct2, THEN mp, OF m3, of False]
  obtain s3 where d1: "acquire_resume False (0, 1, 0) cancelled_example = Some (Some CancelledError, s3)"
    and d2: "s_waiters s3 = remove1 (0, 1, 0) (s_waiters cancelled_example)"
    and d3: "s_value cancelled_example \<le> 0
               \<or> pending_futs (futs cancelled_example) (remove1 (0, 1, 0) (s_waiters cancelled_example)) = []
             \<longrightarrow> s_value s3 = s_value cancelled_example \<and> futs s3 = futs cancelled_example"
    by blast
  from d1 d2 d3 m4 have r3: "\<exists>s'. acquire_resume False (0, 1, 0) cancelled_example = Some (Some CancelledError, s')
          \<and> s_waiters s' = remove1 (0, 1, 0) (s_waiters cancelled_example)
          \<and> s_value s' = s_value cancelled_example \<and> futs s' = futs cancelled_example" by blast
  show ?thesis by (intro conjI h1 h2 h3 h4 e2 r1 k1 k2 k3 k4 r2 m1 m2 m3 m4 r3)
qed

section \<open>Binary insertion keeps the key order\<close>

lemma sorted_map_nth_mono:
  "sorted (map key a) \<Longrightarrow> i \<le> j \<Longrightarrow> j < length a \<Longrightarrow> key (a ! i) \<le> key (a ! j)"
  using sorted_nth_mono [of "map key a" i j] by simp

lemma bisect_right_spec:
  "sorted (map key a) \<Longrightarrow>
   (\<forall>y\<in>set a. \<forall>b. lt x y = Some b \<longrightarrow> (b \<longrightarrow> key x \<le> key y) \<and> (\<not> b \<longrightarrow> key y \<le> key x)) \<Longrightarrow>
   lo \<le> hi \<Longrightarrow> hi \<le> length a \<Longrightarrow>
   (\<forall>i<lo. key (a ! i) \<le> key x) \<Longrightarrow>
   (\<forall>i. hi \<le> i \<and> i < length a \<longrightarrow> key x \<le> key (a ! i)) \<Longrightarrow>
   bisect_right lt a x lo hi = Some p \<Longrightarrow>
   lo \<le> p \<and> p \<le> hi \<and> (\<forall>i<p. key (a ! i) \<le> key x)
     \<and> (\<forall>i. p \<le> i \<and> i < length a \<longrightarrow> key x \<le> key (a ! i))"
proof (induction lt a x lo hi rule: bisect_right.induct)
  case (1 lt a x lo hi)
  show ?case
  proof (cases "lo < hi")
    case False
    from "1.prems"(7) False have "p = lo" by (simp add: bisect_right.simps [of lt a x lo hi])
    moreover from False "1.prems"(3) have "lo = hi" by simp
    ultimately show ?thesis using "1.prems"(5,6) by simp
  next
    case True
    define mid where "mid = (lo + hi) div 2"
    from True have m: "lo \<le> mid" "mid < hi" by (simp_all add: mid_def)
    with "1.prems" have ml: "mid < length a" by simp
    then have mem: "a ! mid \<in> set a" by simp
    from "1.prems"(7) True obtain b where b: "lt x (a ! mid) = Some b"
      by (cases "lt x (a ! mid)") (simp_all add: bisect_right.simps [of lt a x lo hi] mid_def Let_def)
    from "1.prems"(2) mem b have cmp: "(b \<longrightarrow> key x \<le> key (a ! mid)) \<and> (\<not> b \<longrightarrow> key (a ! mid) \<le> key x)"
      by blast
    show ?thesis
    proof (cases b)
      case bt: True
      with "1.prems"(7) \<open>lo < hi\<close> b have r: "bisect_right lt a x lo mid = Some p"
        by (simp add: bisect_right.simps [of lt a x lo hi] mid_def Let_def)
      have up: "\<forall>i. mid \<le> i \<and> i < length a \<longrightarrow> key x \<le> key (a ! i)"
      proof (intro allI impI)
        fix i assume "mid \<le> i \<and> i < length a"
        then have "key (a ! mid) \<le> key (a ! i)"
          using sorted_map_nth_mono [OF "1.prems"(1)] by simp
        with cmp bt show "key x \<le> key (a ! i)" by auto
      qed
      have "lo \<le> p \<and> p \<le> mid \<and> (\<forall>i<p. key (a ! i) \<le> key x)
              \<and> (\<forall>i. p \<le> i \<and> i < length a \<longrightarrow> key x \<le> key (a ! i))"
        using "1.IH"(1) [OF True mid_def b bt "1.prems"(1,2) m(1) _ "1.prems"(5) up r] ml by simp
      with m show ?thesis by simp
    next
      case bf: False
      with "1.prems"(7) \<open>lo < hi\<close> b have r: "bisect_right lt a x (mid + 1) hi = Some p"
        by (simp add: bisect_right.simps [of lt a x lo hi] mid_def Let_def)
      have low: "\<forall>i<mid + 1. key (a ! i) \<le> key x"
      proof (intro allI impI)
        fix i assume "i < mid + 1"
        then have "key (a ! i) \<le> key (a ! mid)"
          using sorted_map_nth_mono [OF "1.prems"(1), of i mid] ml by simp
        with cmp bf show "key (a ! i) \<le> key x" by auto
      qed
      have "mid + 1 \<le> p \<and> p \<le> hi \<and> (\<forall>i<p. key (a ! i) \<le> key x)
              \<and> (\<forall>i. p \<le> i \<and> i < length a \<longrightarrow> key x \<le> key (a ! i))"
        using "1.IH"(2) [OF True mid_def b bf "1.prems"(1,2) _ "1.prems"(4) low "1.prems"(6) r] m by simp
      with m show ?thesis by simp
    qed
  qed
qed

lemma bisect_right_total:
  "(\<forall>y\<in>set a. lt x y \<noteq> None) \<Longrightarrow> hi \<le> length a \<Longrightarrow> bisect_right lt a x lo hi \<noteq> None"
proof (induction lt a x lo hi rule: bisect_right.induct)
  case (1 lt a x lo hi)
  show ?case
  proof (cases "lo < hi")
    case False
    then show ?thesis by (simp add: bisect_right.simps [of lt a x lo hi])
  next
    case True
    define mid where "mid = (lo + hi) div 2"
    from True have m: "lo \<le> mid" "mid < hi" by (simp_all add: mid_def)
    with "1.prems" have "a ! mid \<in> set a" by simp
    with "1.prems" obtain b where b: "lt x (a ! mid) = Some b" by auto
    show ?thesis
    proof (cases b)
      case bt: True
      have "bisect_right lt a x lo mid \<noteq> None"
        using "1.IH"(1) [OF True mid_def b bt "1.prems"(1)] m "1.prems"(2) by simp
      with True b bt show ?thesis
        by (simp add: bisect_right.simps [of lt a x lo hi] mid_def Let_def)
    next
      case bf: False
      have "bisect_right lt a x (mid + 1) hi \<noteq> None"
        using "1.IH"(2) [OF True mid_def b bf "1.prems"(1)] "1.prems"(2) by simp
      with True b bf show ?thesis
        by (simp add: bisect_right.simps [of lt a x lo hi] mid_def Let_def)
    qed
  qed
qed

lemma insort_right_spec:
  assumes "sorted (map key a)"
    and "\<forall>y\<in>set a. \<forall>b. lt x y = Some b \<longrightarrow> (b \<longrightarrow> key x \<le> key y) \<and> (\<not> b \<longrightarrow> key y \<le> key x)"
    and "insort_right lt a x = Some a'"
  shows "sorted (map key a') \<and> (\<exists>p\<le>length a. a' = take p a @ x # drop p a)"
proof -
  from assms(3) obtain p where p: "bisect_right lt a x 0 (length a) = Some p"
    and a': "a' = take p a @ x # drop p a"
    by (auto simp: insort_right_def split: option.splits)
  have "0 \<le> p \<and> p \<le> length a \<and> (\<forall>i<p. key (a ! i) \<le> key x)
     \<and> (\<forall>i. p \<le> i \<and> i < length a \<longrightarrow> key x \<le> key (a ! i))"
    by (rule bisect_right_spec [OF assms(1,2) _ _ _ _ p]) auto
  then have pl: "p \<le> length a" and lo: "\<forall>i<p. key (a ! i) \<le> key x"
    and hi: "\<forall>i. p \<le> i \<and> i < length a \<longrightarrow> key x \<le> key (a ! i)" by simp_all
  have s1: "sorted (map key (take p a))" using assms(1) by (simp add: take_map [symmetric] sorted_wrt_take)
  have s2: "sorted (map key (drop p a))" using assms(1) by (simp add: drop_map [symmetric] sorted_wrt_drop)
  have b1: "\<forall>y\<in>set (take p a). key y \<le> key x"
  proof
    fix y assume "y \<in> set (take p a)"
    then obtain i where "i < length (take p a)" "y = take p a ! i" by (auto simp: in_set_conv_nth)
    with lo show "key y \<le> key x" by simp
  qed
  have b2: "\<forall>y\<in>set (drop p a). key x \<le> key y"
  proof
    fix y assume "y \<in> set (drop p a)"
    then obtain i where "i < length (drop p a)" "y = drop p a ! i" by (auto simp: in_set_conv_nth)
    with hi pl show "key x \<le> key y" by simp
  qed
  have b3: "\<forall>y\<in>set (take p a). \<forall>z\<in>set (drop p a). key y \<le> key z"
    using b1 b2 by (meson order_trans)
  have "sorted (map key a')"
    unfolding a' using s1 s2 b1 b2 b3 by (auto simp: sorted_append)
  with pl a' show ?thesis by blast
qed

lemma insort_right_total:
  "(\<forall>y\<in>set a. lt x y \<noteq> None) \<Longrightarrow> insort_right lt a x \<noteq> None"
  using bisect_right_total [of a lt x "length a" 0]
  by (simp add: insort_right_def split: option.splits)

lemma tuple_lt_prefix:
  "tuple_lt plt x y = Some b \<Longrightarrow> (b \<longrightarrow> prefix x \<le> prefix y) \<and> (\<not> b \<longrightarrow> prefix y \<le> prefix x)"
  by (cases x; cases y) (auto simp: tuple_lt_def prefix_def less_eq_prod_def split: if_splits)

section \<open>Invariants of the semaphore\<close>

lemma sem_inv_frame:
  "sem_inv s \<Longrightarrow> s_waiters s' = s_waiters s \<Longrightarrow> s_comparison_counter s' = s_comparison_counter s
   \<Longrightarrow> s_loop s' = s_loop s \<Longrightarrow> length (futs s') = length (futs s) \<Longrightarrow> sem_inv s'"
  by (simp add: sem_inv_def futs_wf_def)

lemma wake_up_next_frame:
  "wake_up_next s = (b, s') \<Longrightarrow>
     s_waiters s' = s_waiters s \<and> s_comparison_counter s' = s_comparison_counter s
     \<and> s_loop s' = s_loop s \<and> length (futs s') = length (futs s) \<and> s_max_value s' = s_max_value s"
  by (auto simp: wake_up_next_def split: if_splits option.splits)

lemma wake_up_to_frame:
  "s_waiters (wake_up_to n s) = s_waiters s
   \<and> s_comparison_counter (wake_up_to n s) = s_comparison_counter s
   \<and> s_loop (wake_up_to n s) = s_loop s
   \<and> length (futs (wake_up_to n s)) = length (futs s)
   \<and> s_max_value (wake_up_to n s) = s_max_value s"
proof (induction n arbitrary: s)
  case 0
  then show ?case by simp
next
  case (Suc n)
  obtain b s' where w: "wake_up_next s = (b, s')" by (cases "wake_up_next s") auto
  from wake_up_next_frame [OF w] Suc [of s'] w show ?case by (cases b) simp_all
qed

lemma top_up_frame:
  "s_waiters (top_up s) = s_waiters s
   \<and> s_comparison_counter (top_up s) = s_comparison_counter s
   \<and> s_loop (top_up s) = s_loop s
   \<and> length (futs (top_up s)) = length (futs s)
   \<and> s_max_value (top_up s) = s_max_value s"
  by (simp add: top_up_wake_up_to wake_up_to_frame)

lemma cancel_waiting_loop_length:
  "length (cancel_waiting_loop exc ws fs) = length fs"
  by (induction ws arbitrary: fs) (auto split: prod.splits)

lemma sem_inv_init: "sem_inv (sem_init v)"
  by (simp add: sem_inv_def sem_init_def futs_wf_def)

lemma waiter_lt_total:
  assumes "\<forall>w\<in>set ws. fst (snd w) \<noteq> c"
  shows "\<forall>y\<in>set ws. waiter_lt (np, c, f) y \<noteq> None"
proof
  fix y assume "y \<in> set ws"
  with assms have "fst (snd y) \<noteq> c" by blast
  then show "waiter_lt (np, c, f) y \<noteq> None"
    by (cases y) (auto simp: waiter_lt_def tuple_lt_def)
qed

lemma acquire_start_locked:
  assumes inv: "sem_inv s" and l: "locked s"
  shows "\<exists>p ws. p \<le> length (s_waiters s)
           \<and> ws = take p (s_waiters s) @ (- priority, s_comparison_counter s + 1, length (futs s))
                     # drop p (s_waiters s)
           \<and> sorted (map prefix ws)
           \<and> acquire_start 0 priority s =
               (Suspended (- priority, s_comparison_counter s + 1, length (futs s)),
                s\<lparr>s_comparison_counter := s_comparison_counter s + 1, s_loop := Some 0,
                  futs := futs s @ [Pending], s_waiters := ws\<rparr>)"
proof -
  let ?obj = "(- priority, s_comparison_counter s + 1, length (futs s))"
  from inv have cnt: "\<forall>w\<in>set (s_waiters s). fst (snd w) \<noteq> s_comparison_counter s + 1"
    by (auto simp: sem_inv_def)
  from insort_right_total [of "s_waiters s" waiter_lt ?obj]
    waiter_lt_total [OF cnt, of "- priority" "length (futs s)"]
  obtain ws where ws: "insort_right waiter_lt (s_waiters s) ?obj = Some ws" by blast
  have cmp: "\<forall>y\<in>set (s_waiters s). \<forall>b. waiter_lt ?obj y = Some b \<longrightarrow>
      (b \<longrightarrow> prefix ?obj \<le> prefix y) \<and> (\<not> b \<longrightarrow> prefix y \<le> prefix ?obj)"
    unfolding waiter_lt_def using tuple_lt_prefix by blast
  from inv have srt: "sorted (map prefix (s_waiters s))" by (simp add: sem_inv_def)
  from insort_right_spec [OF srt cmp ws] obtain p where
    p: "p \<le> length (s_waiters s)" "ws = take p (s_waiters s) @ ?obj # drop p (s_waiters s)"
    and s': "sorted (map prefix ws)" by blast
  from inv have lp: "s_loop s = None \<or> s_loop s = Some 0" by (simp add: sem_inv_def)
  have "acquire_start 0 priority s =
               (Suspended ?obj,
                s\<lparr>s_comparison_counter := s_comparison_counter s + 1, s_loop := Some 0,
                  futs := futs s @ [Pending], s_waiters := ws\<rparr>)"
    using l lp ws by (auto simp: acquire_start_def get_loop_def Let_def)
  with p s' show ?thesis by blast
qed

lemma acquire_start_inv:
  assumes inv: "sem_inv s"
  shows "sem_inv (snd (acquire_start 0 priority s))"
proof (cases "locked s")
  case False
  then have "snd (acquire_start 0 priority s) = s\<lparr>s_value := s_value s - 1\<rparr>"
    by (simp add: acquire_start_def)
  with inv show ?thesis by (simp add: sem_inv_def futs_wf_def)
next
  case True
  let ?obj = "(- priority, s_comparison_counter s + 1, length (futs s))"
  from acquire_start_locked [OF inv True, of priority] obtain p ws where
    p: "p \<le> length (s_waiters s)"
    and ws: "ws = take p (s_waiters s) @ ?obj # drop p (s_waiters s)"
    and srt: "sorted (map prefix ws)"
    and eq: "acquire_start 0 priority s =
               (Suspended ?obj,
                s\<lparr>s_comparison_counter := s_comparison_counter s + 1, s_loop := Some 0,
                  futs := futs s @ [Pending], s_waiters := ws\<rparr>)" by blast
  have set_ws: "set ws = insert ?obj (set (s_waiters s))"
  proof -
    have u: "set (take p (s_waiters s)) \<union> set (drop p (s_waiters s)) = set (s_waiters s)"
      by (metis append_take_drop_id set_append)
    have "set ws = insert ?obj (set (take p (s_waiters s)) \<union> set (drop p (s_waiters s)))"
      unfolding ws by auto
    with u show ?thesis by simp
  qed
  from inv have c1: "\<forall>w\<in>set (s_waiters s). fst (snd w) \<le> s_comparison_counter s"
    and d1: "distinct (map (\<lambda>w. fst (snd w)) (s_waiters s))"
    and d2: "distinct (map (\<lambda>w. snd (snd w)) (s_waiters s))"
    and v: "\<forall>w\<in>set (s_waiters s). snd (snd w) < length (futs s)"
    by (simp_all add: sem_inv_def futs_wf_def)
  have dist: "distinct (map g ws)" if "distinct (map g (s_waiters s))" "g ?obj \<notin> g ` set (s_waiters s)"
    for g :: "waiter \<Rightarrow> 'b"
  proof -
    from that(1) have "distinct (map g (take p (s_waiters s)) @ map g (drop p (s_waiters s)))"
      by (metis append_take_drop_id map_append)
    moreover have "g ?obj \<notin> set (map g (take p (s_waiters s)))" "g ?obj \<notin> set (map g (drop p (s_waiters s)))"
      using that(2) by (auto dest: in_set_takeD in_set_dropD)
    ultimately show ?thesis unfolding ws by auto
  qed
  have n1: "fst (snd ?obj) \<notin> (\<lambda>w. fst (snd w)) ` set (s_waiters s)" using c1 by force
  have n2: "snd (snd ?obj) \<notin> (\<lambda>w. snd (snd w)) ` set (s_waiters s)" using v by force
  show ?thesis
    unfolding eq using srt set_ws c1 v dist [OF d1 n1] dist [OF d2 n2]
    by (auto simp: sem_inv_def futs_wf_def)
qed

lemma sem_inv_remove1:
  assumes "sem_inv s"
  shows "sem_inv (s\<lparr>s_waiters := remove1 obj (s_waiters s)\<rparr>)"
proof -
  have sub: "set (remove1 obj (s_waiters s)) \<subseteq> set (s_waiters s)" by (rule set_remove1_subset)
  from assms have "sorted (map prefix (remove1 obj (s_waiters s)))"
    by (simp add: sem_inv_def sorted_map_remove1)
  moreover from assms have "distinct (map (\<lambda>w. fst (snd w)) (remove1 obj (s_waiters s)))"
    by (simp add: sem_inv_def distinct_map_remove1)
  moreover from assms have "distinct (map (\<lambda>w. snd (snd w)) (remove1 obj (s_waiters s)))"
    by (simp add: sem_inv_def futs_wf_def distinct_map_remove1)
  ultimately show ?thesis using assms sub by (auto simp: sem_inv_def futs_wf_def)
qed

lemma acquire_resume_inv:
  assumes "sem_inv s" "acquire_resume thrown obj s = Some (r, s')"
  shows "sem_inv s'"
proof -
  let ?s1 = "s\<lparr>s_waiters := remove1 obj (s_waiters s)\<rparr>"
  have i1: "sem_inv ?s1" using assms(1) by (rule sem_inv_remove1)
  have i2: "sem_inv (?s1\<lparr>s_value := v\<rparr>)" for v
    by (rule sem_inv_frame [OF i1]) simp_all
  have t: "sem_inv (top_up x)" if "sem_inv x" for x
    by (rule sem_inv_frame [OF that]) (simp_all add: top_up_frame)
  from assms(2) have "s' = top_up s \<or> s' = top_up ?s1 \<or> s' = top_up (?s1\<lparr>s_value := s_value ?s1 + 1\<rparr>)"
    by (auto simp: acquire_resume_def Let_def split: prod.splits option.splits if_splits)
  with t [OF assms(1)] t [OF i1] t [OF i2] show ?thesis by auto
qed

lemma release_inv: "sem_inv s \<Longrightarrow> sem_inv (snd (release s))"
proof -
  assume a: "sem_inv s"
  obtain b s' where w: "wake_up_next (s\<lparr>s_value := s_value s + 1\<rparr>) = (b, s')"
    by (cases "wake_up_next (s\<lparr>s_value := s_value s + 1\<rparr>)") auto
  have "sem_inv s'"
    by (rule sem_inv_frame [OF a]) (use wake_up_next_frame [OF w] in simp_all)
  with a w show ?thesis by (simp add: release_def)
qed

lemma set_max_value_inv: "sem_inv s \<Longrightarrow> sem_inv (snd (set_max_value n s))"
proof -
  assume a: "sem_inv s"
  show ?thesis
  proof (cases "n < 0")
    case True
    with a show ?thesis by (simp add: set_max_value_def)
  next
    case False
    have "sem_inv (wake_up_to k (s\<lparr>s_value := v, s_max_value := m\<rparr>))" for k v m
      by (rule sem_inv_frame [OF a]) (simp_all add: wake_up_to_frame)
    with False show ?thesis by (simp add: set_max_value_def Let_def)
  qed
qed

lemma cancel_waiting_inv: "sem_inv s \<Longrightarrow> sem_inv (cancel_waiting exc s)"
  by (erule sem_inv_frame) (simp_all add: cancel_waiting_def cancel_waiting_loop_length)

lemma task_cancel_inv: "sem_inv (sem w) \<Longrightarrow> sem_inv (sem (task_cancel i w))"
proof -
  assume a: "sem_inv (sem w)"
  have "sem_inv ((sem w)\<lparr>futs := (futs (sem w))[f := Cancelled]\<rparr>)" for f
    by (rule sem_inv_frame [OF a]) simp_all
  with a show ?thesis by (auto simp: task_cancel_def Let_def split: prod.splits)
qed

lemma task_resume_inv: "sem_inv (sem w) \<Longrightarrow> sem_inv (sem (task_resume i w))"
  by (auto simp: task_resume_def split: prod.splits option.splits dest: acquire_resume_inv)

lemma step_inv: "sem_inv (sem w) \<Longrightarrow> sem_inv (sem (step e w))"
proof (cases e)
  case (EvAcquire p)
  assume a: "sem_inv (sem w)"
  from acquire_start_inv [OF a, of p] EvAcquire show ?thesis
    by (auto split: prod.splits acquire_start_result.splits)
next
  case EvRelease
  assume "sem_inv (sem w)"
  with EvRelease show ?thesis by (simp add: release_inv)
next
  case (EvSetMax n)
  assume "sem_inv (sem w)"
  with EvSetMax show ?thesis by (simp add: set_max_value_inv)
next
  case (EvCancelWaiting x)
  assume "sem_inv (sem w)"
  with EvCancelWaiting show ?thesis by (simp add: cancel_waiting_inv)
next
  case (EvCancelTask i)
  assume "sem_inv (sem w)"
  with EvCancelTask show ?thesis by (simp add: task_cancel_inv)
next
  case (EvResume i)
  assume "sem_inv (sem w)"
  with EvResume show ?thesis by (simp add: task_resume_inv)
qed

lemma exec_inv: "sem_inv (sem w) \<Longrightarrow> sem_inv (sem (exec evs w))"
  by (induction evs arbitrary: w) (simp_all add: step_inv)

lemma reachable_inv: "sem_inv (sem (exec evs (world_init v)))"
  by (rule exec_inv) (simp add: world_init_def sem_inv_init)

section \<open>\<open>locked\<close> and the late arrival\<close>

lemma locked_iff:
  "locked s \<longleftrightarrow> s_value s \<le> 0 \<or> (\<exists>w\<in>set (s_waiters s). \<not> fut_cancelled (futs s) (snd (snd w)))"
  by (simp add: locked_def list_ex_iff case_prod_beta)

text \<open>
  Claim C3: \<open>locked\<close> is true exactly when the counter is at most zero or some queued waiter's
  future is not cancelled. Hence an \<open>acquire\<close> that arrives while the counter is positive and
  such a waiter is queued never takes a permit at once and leaves the counter as it is; and in
  every state that the semaphore reaches from its creation it is suspended, its tuple
  \<open>(-priority, count, fut)\<close> with a fresh pending future being added to the queue.
\<close>

theorem locked_spec:
  "(locked s \<longleftrightarrow> s_value s \<le> 0 \<or> (\<exists>w\<in>set (s_waiters s). \<not> fut_cancelled (futs s) (snd (snd w))))
   \<and> (0 < s_value s \<and> (\<exists>w\<in>set (s_waiters s). \<not> fut_cancelled (futs s) (snd (snd w))) \<longrightarrow>
        fst (acquire_start loop priority s) \<noteq> Acquired
        \<and> s_value (snd (acquire_start loop priority s)) = s_value s)
   \<and> (s = sem (exec evs (world_init v)) \<and> 0 < s_value s
        \<and> (\<exists>w\<in>set (s_waiters s). \<not> fut_cancelled (futs s) (snd (snd w))) \<longrightarrow>
        (\<exists>obj s'. acquire_start 0 priority s = (Suspended obj, s')
           \<and> set (s_waiters s') = insert obj (set (s_waiters s))
           \<and> fst obj = - priority
           \<and> fut_get (futs s') (snd (snd obj)) = Pending
           \<and> s_value s' = s_value s))"
proof (intro conjI impI)
  show "locked s \<longleftrightarrow> s_value s \<le> 0 \<or> (\<exists>w\<in>set (s_waiters s). \<not> fut_cancelled (futs s) (snd (snd w)))"
    by (rule locked_iff)
next
  assume "0 < s_value s \<and> (\<exists>w\<in>set (s_waiters s). \<not> fut_cancelled (futs s) (snd (snd w)))"
  then have l: "locked s" by (simp add: locked_iff)
  then show "fst (acquire_start loop priority s) \<noteq> Acquired"
    by (auto simp: acquire_start_def Let_def split: prod.splits option.splits)
  from l show "s_value (snd (acquire_start loop priority s)) = s_value s"
    by (auto simp: acquire_start_def get_loop_def Let_def split: prod.splits option.splits if_splits)
next
  assume a: "s = sem (exec evs (world_init v)) \<and> 0 < s_value s
        \<and> (\<exists>w\<in>set (s_waiters s). \<not> fut_cancelled (futs s) (snd (snd w)))"
  then have "\<exists>w\<in>set (s_waiters s). \<not> fut_cancelled (futs s) (snd (snd w))" by blast
  then have l: "locked s" unfolding locked_iff by (rule disjI2)
  from a have inv: "sem_inv s" by (simp add: reachable_inv)
  let ?obj = "(- priority, s_comparison_counter s + 1, length (futs s))"
  from acquire_start_locked [OF inv l, of priority] obtain p ws where
    p: "p \<le> length (s_waiters s)"
    and ws: "ws = take p (s_waiters s) @ ?obj # drop p (s_waiters s)"
    and eq: "acquire_start 0 priority s =
               (Suspended ?obj,
                s\<lparr>s_comparison_counter := s_comparison_counter s + 1, s_loop := Some 0,
                  futs := futs s @ [Pending], s_waiters := ws\<rparr>)" by blast
  have u: "set (take p (s_waiters s)) \<union> set (drop p (s_waiters s)) = set (s_waiters s)"
    by (metis append_take_drop_id set_append)
  have "set ws = insert ?obj (set (take p (s_waiters s)) \<union> set (drop p (s_waiters s)))"
    unfolding ws by auto
  with u have sw: "set ws = insert ?obj (set (s_waiters s))" by simp
  let ?s' = "s\<lparr>s_comparison_counter := s_comparison_counter s + 1, s_loop := Some 0,
                  futs := futs s @ [Pending], s_waiters := ws\<rparr>"
  have "acquire_start 0 priority s = (Suspended ?obj, ?s')
           \<and> set (s_waiters ?s') = insert ?obj (set (s_waiters s))
           \<and> fst ?obj = - priority
           \<and> fut_get (futs ?s') (snd (snd ?obj)) = Pending
           \<and> s_value ?s' = s_value s"
    using eq sw by (simp add: fut_get_def)
  then show "\<exists>obj s'. acquire_start 0 priority s = (Suspended obj, s')
           \<and> set (s_waiters s') = insert obj (set (s_waiters s))
           \<and> fst obj = - priority
           \<and> fut_get (futs s') (snd (snd obj)) = Pending
           \<and> s_value s' = s_value s" by blast
qed

theorem locked_spec_witness:
  "0 < s_value late_example
   \<and> (\<exists>w\<in>set (s_waiters late_example). \<not> fut_cancelled (futs late_example) (snd (snd w)))
   \<and> locked late_example
   \<and> fst (acquire_start 0 7 late_example) \<noteq> Acquired
   \<and> s_value (snd (acquire_start 0 7 late_example)) = s_value late_example
   \<and> (\<exists>obj s'. acquire_start 0 7 late_example = (Suspended obj, s')
           \<and> set (s_waiters s') = insert obj (set (s_waiters late_example))
           \<and> fst obj = - 7
           \<and> fut_get (futs s') (snd (snd obj)) = Pending
           \<and> s_value s' = s_value late_example)"
proof -
  have h1: "0 < s_value late_example" by code_simp
  have h2: "\<exists>w\<in>set (s_waiters late_example). \<not> fut_cancelled (futs late_example) (snd (snd w))"
    by code_simp
  note t = locked_spec [of late_example 0 7 late_trace 1]
  have r0: "locked late_example"
    using t [THEN conjunct1] h2 by blast
  note t2 = t [THEN conjunct2, THEN conjunct1, THEN mp, OF conjI [OF h1 h2]]
  note t3 = t [THEN conjunct2, THEN conjunct2, THEN mp, OF conjI [OF late_example_def conjI [OF h1 h2]]]
  show ?thesis by (intro conjI h1 h2 r0 t2 [THEN conjunct1] t2 [THEN conjunct2] t3)
qed

section \<open>The order of the grants\<close>

lemma wake_up_next_first:
  assumes inv: "sem_inv s" and w: "wake_up_next s = (True, s')"
  shows "\<exists>w\<in>set (s_waiters s). \<not> fut_done (futs s) (snd (snd w))
           \<and> s' = s\<lparr>s_value := s_value s - 1, futs := (futs s)[snd (snd w) := Result]\<rparr>
           \<and> fut_get (futs s') (snd (snd w)) = Result
           \<and> (\<forall>u\<in>set (s_waiters s). u \<noteq> w \<and> \<not> fut_done (futs s) (snd (snd u)) \<longrightarrow>
                 - fst u < - fst w \<or> (fst u = fst w \<and> fst (snd w) < fst (snd u)))"
proof -
  from w obtain f where f: "first_not_done (futs s) (s_waiters s) = Some f"
    and s': "s' = s\<lparr>s_value := s_value s - 1, futs := (futs s)[f := Result]\<rparr>"
    by (auto simp: wake_up_next_def split: if_splits option.splits)
  from f obtain pre w post where ws: "s_waiters s = pre @ w # post"
    and pre: "\<forall>u\<in>set pre. fut_done (futs s) (snd (snd u))"
    and wf: "snd (snd w) = f" and nd: "\<not> fut_done (futs s) f"
    unfolding first_not_done_Some_iff by blast
  from inv ws have srt: "sorted (map prefix (pre @ w # post))"
    and dc: "distinct (map (\<lambda>w. fst (snd w)) (pre @ w # post))"
    and fv: "f < length (futs s)"
    using wf by (auto simp: sem_inv_def futs_wf_def)
  have ord: "- fst u < - fst w \<or> (fst u = fst w \<and> fst (snd w) < fst (snd u))"
    if u: "u \<in> set (s_waiters s)" "u \<noteq> w" "\<not> fut_done (futs s) (snd (snd u))" for u
  proof -
    from u pre ws have up: "u \<in> set post" by auto
    with srt have le: "prefix w \<le> prefix u" by (auto simp: sorted_append)
    from up dc have ne: "fst (snd w) \<noteq> fst (snd u)" by auto
    from le ne show ?thesis by (auto simp: prefix_def less_eq_prod_def)
  qed
  have "w \<in> set (s_waiters s)" using ws by simp
  moreover have "fut_get (futs s') (snd (snd w)) = Result"
    using s' wf fv by (simp add: fut_get_def)
  ultimately show ?thesis using nd wf s' ord by blast
qed

text \<open>
  Claim C1: every state that the semaphore reaches keeps its waiter list ordered by
  \<open>(-priority, count)\<close> with distinct counts (\<open>sem_inv\<close>); this also holds inside
  \<open>release\<close>, the setter of \<open>max_value\<close> and the loops of grants, whose states differ from
  such a state only in the counter and in the futures' contents. In such a state every grant,
  all of which are made by \<open>_wake_up_next\<close>, goes to a queued waiter that is not done and
  that precedes every other queued waiter that is not done: it has a strictly higher
  priority, or the same priority and a smaller count. The counts follow the arrival: a newly
  queued waiter gets a count greater than those of all queued waiters. On the example of the
  claim (capacity 1, no permit available, W1 and W2 of priority 5 and W3 of priority 10
  queued in this order), three releases grant W3, then W1, then W2.
\<close>

theorem grant_order:
  "sem_inv (sem (exec evs (world_init v)))
   \<and> (sem_inv s \<and> wake_up_next s = (True, s') \<longrightarrow>
        sem_inv s'
        \<and> (\<exists>w\<in>set (s_waiters s). \<not> fut_done (futs s) (snd (snd w))
              \<and> s' = s\<lparr>s_value := s_value s - 1, futs := (futs s)[snd (snd w) := Result]\<rparr>
              \<and> fut_get (futs s') (snd (snd w)) = Result
              \<and> (\<forall>u\<in>set (s_waiters s). u \<noteq> w \<and> \<not> fut_done (futs s) (snd (snd u)) \<longrightarrow>
                    - fst u < - fst w \<or> (fst u = fst w \<and> fst (snd w) < fst (snd u)))))
   \<and> (sem_inv s \<and> locked s \<longrightarrow>
        (\<exists>obj s2. acquire_start 0 priority s = (Suspended obj, s2)
           \<and> fst obj = - priority
           \<and> (\<forall>u\<in>set (s_waiters s). fst (snd u) < fst (snd obj))))"
proof (intro conjI impI)
  show "sem_inv (sem (exec evs (world_init v)))" by (rule reachable_inv)
next
  assume a: "sem_inv s \<and> wake_up_next s = (True, s')"
  show "sem_inv s'"
    by (rule sem_inv_frame [OF a [THEN conjunct1]])
       (use wake_up_next_frame [OF a [THEN conjunct2]] in simp_all)
  from a show "\<exists>w\<in>set (s_waiters s). \<not> fut_done (futs s) (snd (snd w))
              \<and> s' = s\<lparr>s_value := s_value s - 1, futs := (futs s)[snd (snd w) := Result]\<rparr>
              \<and> fut_get (futs s') (snd (snd w)) = Result
              \<and> (\<forall>u\<in>set (s_waiters s). u \<noteq> w \<and> \<not> fut_done (futs s) (snd (snd u)) \<longrightarrow>
                    - fst u < - fst w \<or> (fst u = fst w \<and> fst (snd w) < fst (snd u)))"
    using wake_up_next_first by blast
next
  assume a: "sem_inv s \<and> locked s"
  let ?obj = "(- priority, s_comparison_counter s + 1, length (futs s))"
  from acquire_start_locked [of s priority] a obtain ws where
    eq: "acquire_start 0 priority s =
               (Suspended ?obj,
                s\<lparr>s_comparison_counter := s_comparison_counter s + 1, s_loop := Some 0,
                  futs := futs s @ [Pending], s_waiters := ws\<rparr>)" by blast
  from a have b: "\<forall>u\<in>set (s_waiters s). fst (snd u) < fst (snd ?obj)"
    by (auto simp: sem_inv_def)
  have "acquire_start 0 priority s =
               (Suspended ?obj,
                s\<lparr>s_comparison_counter := s_comparison_counter s + 1, s_loop := Some 0,
                  futs := futs s @ [Pending], s_waiters := ws\<rparr>)
        \<and> fst ?obj = - priority
        \<and> (\<forall>u\<in>set (s_waiters s). fst (snd u) < fst (snd ?obj))"
    using eq b by simp
  then show "\<exists>obj s2. acquire_start 0 priority s = (Suspended obj, s2)
           \<and> fst obj = - priority
           \<and> (\<forall>u\<in>set (s_waiters s). fst (snd u) < fst (snd obj))"
    by blast
qed

theorem grant_order_witness:
  "sem_inv queue_example
   \<and> s_waiters queue_example = [(- 10, 3, 2), (- 5, 1, 0), (- 5, 2, 1)]
   \<and> futs queue_example = [Pending, Pending, Pending]
   \<and> wake_up_next queue_example = (True, snd (wake_up_next queue_example))
   \<and> sem_inv (snd (wake_up_next queue_example))
   \<and> (\<exists>w\<in>set (s_waiters queue_example). \<not> fut_done (futs queue_example) (snd (snd w))
        \<and> snd (wake_up_next queue_example) =
            queue_example\<lparr>s_value := s_value queue_example - 1,
                           futs := (futs queue_example)[snd (snd w) := Result]\<rparr>
        \<and> fut_get (futs (snd (wake_up_next queue_example))) (snd (snd w)) = Result
        \<and> (\<forall>u\<in>set (s_waiters queue_example).
              u \<noteq> w \<and> \<not> fut_done (futs queue_example) (snd (snd u)) \<longrightarrow>
              - fst u < - fst w \<or> (fst u = fst w \<and> fst (snd w) < fst (snd u))))
   \<and> futs (snd (release queue_example)) = [Pending, Pending, Result]
   \<and> futs (snd (release (snd (release queue_example)))) = [Result, Pending, Result]
   \<and> futs (snd (release (snd (release (snd (release queue_example)))))) = [Result, Result, Result]
   \<and> locked queue_example
   \<and> (\<exists>obj s2. acquire_start 0 1 queue_example = (Suspended obj, s2)
         \<and> fst obj = - 1
         \<and> (\<forall>u\<in>set (s_waiters queue_example). fst (snd u) < fst (snd obj)))"
proof -
  note t = grant_order [of "[EvAcquire 0, EvAcquire 5, EvAcquire 5, EvAcquire 10]" 1
                           queue_example "snd (wake_up_next queue_example)" 1]
  have h1: "sem_inv queue_example"
    using t [THEN conjunct1] by (simp only: queue_example_def)
  have e1: "s_waiters queue_example = [(- 10, 3, 2), (- 5, 1, 0), (- 5, 2, 1)]" by code_simp
  have e2: "futs queue_example = [Pending, Pending, Pending]" by code_simp
  have e3: "fst (wake_up_next queue_example) = True" by code_simp
  have h2: "wake_up_next queue_example = (True, snd (wake_up_next queue_example))"
    using e3 by (metis prod.collapse)
  note c2 = t [THEN conjunct2, THEN conjunct1, THEN mp, OF conjI [OF h1 h2]]
  have r1: "futs (snd (release queue_example)) = [Pending, Pending, Result]" by code_simp
  have r2: "futs (snd (release (snd (release queue_example)))) = [Result, Pending, Result]"
    by code_simp
  have r3: "futs (snd (release (snd (release (snd (release queue_example)))))) = [Result, Result, Result]"
    by code_simp
  have h3: "locked queue_example" by code_simp
  note c3 = t [THEN conjunct2, THEN conjunct2, THEN mp, OF conjI [OF h1 h3]]
  show ?thesis
    by (intro conjI h1 e1 e2 h2 c2 [THEN conjunct1] c2 [THEN conjunct2] r1 r2 r3 h3 c3)
qed

section \<open>Invariants of the timeout\<close>

lemma timer_inv_liveD: "timer_inv st \<Longrightarrow> live st h \<Longrightarrow> t_timer st = Some h"
  unfolding timer_inv_def by blast

lemma timer_inv_validD: "timer_inv st \<Longrightarrow> t_timer st = Some h \<Longrightarrow> h < length (handles st)"
  unfolding timer_inv_def by blast

lemma timer_invI:
  "(\<And>h. live st h \<Longrightarrow> t_timer st = Some h) \<Longrightarrow>
   (\<And>h. t_timer st = Some h \<Longrightarrow> h < length (handles st)) \<Longrightarrow> timer_inv st"
  unfolding timer_inv_def by blast

lemma handle_cancel_frame:
  "length (handles (handle_cancel h st)) = length (handles st)
   \<and> t_timer (handle_cancel h st) = t_timer st
   \<and> t_when (handle_cancel h st) = t_when st
   \<and> calls (handle_cancel h st) = calls st"
  by (simp add: handle_cancel_def)

lemma live_handle_cancel:
  "live (handle_cancel h st) g \<longleftrightarrow> live st g \<and> g \<noteq> h"
proof (cases "h < length (handles st)")
  case True
  then show ?thesis
    by (cases "g = h") (simp_all add: live_def handle_cancel_def)
next
  case False
  then show ?thesis by (auto simp: live_def handle_cancel_def)
qed

lemma reschedule_timer_None:
  "t_timer st = None \<Longrightarrow>
   reschedule_timer st =
     st\<lparr>handles := handles st @ [\<lparr>h_when = t_when st, h_cancelled = False, h_run = False\<rparr>],
        t_timer := Some (length (handles st))\<rparr>"
  by (simp add: reschedule_timer_def call_at_def Let_def)

lemma reschedule_timer_Some:
  "t_timer st = Some k \<Longrightarrow>
   reschedule_timer st =
     (handle_cancel k st)
       \<lparr>handles := handles (handle_cancel k st)
                     @ [\<lparr>h_when = t_when st, h_cancelled = False, h_run = False\<rparr>],
        t_timer := Some (length (handles st))\<rparr>"
  by (simp add: reschedule_timer_def call_at_def Let_def handle_cancel_frame)

lemma live_append_handle:
  "live (st\<lparr>handles := handles st @ [\<lparr>h_when = w, h_cancelled = False, h_run = False\<rparr>], t_timer := x\<rparr>) g
     \<longleftrightarrow> live st g \<or> g = length (handles st)"
proof (cases "g < length (handles st)")
  case True
  then show ?thesis by (simp add: live_def nth_append)
next
  case False
  then show ?thesis by (cases "g = length (handles st)") (simp_all add: live_def nth_append)
qed

lemma live_reschedule_timer:
  assumes "timer_inv st"
  shows "live (reschedule_timer st) h \<longleftrightarrow> h = length (handles st)"
proof (cases "t_timer st")
  case None
  have nl: "\<not> live st g" for g using timer_inv_liveD [OF assms, of g] None by auto
  from None have "reschedule_timer st =
      st\<lparr>handles := handles st @ [\<lparr>h_when = t_when st, h_cancelled = False, h_run = False\<rparr>],
         t_timer := Some (length (handles st))\<rparr>"
    by (rule reschedule_timer_None)
  then show ?thesis using nl live_append_handle [where st = st] by simp
next
  case (Some k)
  let ?c = "handle_cancel k st"
  have nl: "\<not> live ?c g" for g
    using timer_inv_liveD [OF assms, of g] Some by (auto simp: live_handle_cancel)
  from Some have "reschedule_timer st =
      ?c\<lparr>handles := handles ?c @ [\<lparr>h_when = t_when st, h_cancelled = False, h_run = False\<rparr>],
         t_timer := Some (length (handles st))\<rparr>"
    by (rule reschedule_timer_Some)
  then show ?thesis using nl live_append_handle [where st = "?c"] by (simp add: handle_cancel_frame)
qed

lemma timer_reschedule_timer:
  "t_timer (reschedule_timer st) = Some (length (handles st))
   \<and> length (handles (reschedule_timer st)) = Suc (length (handles st))
   \<and> calls (reschedule_timer st) = calls st
   \<and> t_when (reschedule_timer st) = t_when st
   \<and> handles (reschedule_timer st) ! length (handles st)
        = \<lparr>h_when = t_when st, h_cancelled = False, h_run = False\<rparr>"
proof (cases "t_timer st")
  case None
  then show ?thesis by (simp add: reschedule_timer_None)
next
  case (Some k)
  then show ?thesis
    by (simp add: reschedule_timer_Some handle_cancel_frame nth_append)
qed

lemma timer_inv_reschedule_timer:
  assumes "timer_inv st"
  shows "timer_inv (reschedule_timer st)"
proof (rule timer_invI)
  fix h assume "live (reschedule_timer st) h"
  then have "h = length (handles st)" using live_reschedule_timer [OF assms] by blast
  then show "t_timer (reschedule_timer st) = Some h" using timer_reschedule_timer [of st] by simp
next
  fix h assume "t_timer (reschedule_timer st) = Some h"
  then show "h < length (handles (reschedule_timer st))"
    using timer_reschedule_timer [of st] by simp
qed

lemma live_when: "live (st\<lparr>t_when := w\<rparr>) h = live st h"
  by (simp add: live_def)

lemma timer_inv_when: "timer_inv (st\<lparr>t_when := w\<rparr>) = timer_inv st"
  by (simp add: timer_inv_def live_def)

lemma pending_calls_when: "pending_calls (st\<lparr>t_when := w\<rparr>) = pending_calls st"
  by (simp add: pending_calls_def live_when)

lemma pending_calls_le: "pending_calls st \<le> 1"
  by (simp add: pending_calls_def)

lemma reschedule_step:
  assumes "timer_inv st"
  shows "timer_inv (reschedule delay now st)
         \<and> length (calls (reschedule delay now st)) + pending_calls (reschedule delay now st)
             \<le> Suc (length (calls st))"
proof -
  let ?st1 = "st\<lparr>t_when := now + delay\<rparr>"
  have i1: "timer_inv ?st1" using assms by (simp only: timer_inv_when)
  have c1: "calls ?st1 = calls st" by simp
  have "reschedule delay now st = reschedule_timer ?st1 \<or> reschedule delay now st = ?st1"
    unfolding reschedule_def Let_def by (rule if_split [THEN iffD2]) blast
  then show ?thesis
  proof
    assume e: "reschedule delay now st = reschedule_timer ?st1"
    have "calls (reschedule_timer ?st1) = calls st"
      using timer_reschedule_timer [of ?st1] c1 by simp
    with e timer_inv_reschedule_timer [OF i1] pending_calls_le [of "reschedule_timer ?st1"]
    show ?thesis by simp
  next
    assume e: "reschedule delay now st = ?st1"
    with i1 c1 pending_calls_le [of ?st1] show ?thesis by simp
  qed
qed

lemma cancel_step:
  assumes "timer_inv st"
  shows "timer_inv (cancel st) \<and> calls (cancel st) = calls st \<and> pending_calls (cancel st) = 0"
proof (cases "t_timer st")
  case None
  then have e: "cancel st = st" by (simp add: cancel_def)
  have "\<not> live st g" for g using timer_inv_liveD [OF assms, of g] None by auto
  with e assms show ?thesis by (simp add: pending_calls_def)
next
  case (Some k)
  then have e: "cancel st = (handle_cancel k st)\<lparr>t_timer := None\<rparr>" by (simp add: cancel_def)
  have nl: "\<not> live (cancel st) g" for g
    using timer_inv_liveD [OF assms, of g] Some live_handle_cancel [of k st g]
    unfolding e by (auto simp: live_def)
  have "timer_inv (cancel st)"
  proof (rule timer_invI)
    fix h assume "live (cancel st) h"
    with nl show "t_timer (cancel st) = Some h" by blast
  next
    fix h assume "t_timer (cancel st) = Some h"
    then show "h < length (handles (cancel st))" unfolding e by simp
  qed
  moreover have "calls (cancel st) = calls st" unfolding e by (simp add: handle_cancel_frame)
  moreover have "pending_calls (cancel st) = 0" using nl by (simp add: pending_calls_def)
  ultimately show ?thesis by blast
qed

lemma fire_step:
  assumes "timer_inv st" "fire h now st = Some st'"
  shows "timer_inv st'
         \<and> length (calls st') + pending_calls st' \<le> length (calls st) + pending_calls st
         \<and> (t_when st \<le> now \<longrightarrow> calls st' = calls st @ [now] \<and> t_timer st' = None \<and> pending_calls st' = 0)
         \<and> (now < t_when st \<longrightarrow> calls st' = calls st \<and> t_timer st' = Some (length (handles st))
               \<and> live st' (length (handles st))
               \<and> h_when (handles st' ! length (handles st)) = t_when st)"
proof -
  let ?m = "st\<lparr>handles := (handles st)[h := (handles st ! h)\<lparr>h_run := True\<rparr>]\<rparr>"
  from assms(2) have l: "live st h" and s': "st' = timeout_trigger now ?m"
    by (auto simp: fire_def split: if_splits)
  from l have p: "pending_calls st = 1" by (auto simp: pending_calls_def)
  from l assms(1) have tm: "t_timer st = Some h" by (rule timer_inv_liveD [rotated])
  have nl: "\<not> live ?m g" for g
  proof
    assume a: "live ?m g"
    then have "live st g" by (cases "g = h") (auto simp: live_def)
    with assms(1) tm have "g = h" using timer_inv_liveD by fastforce
    with a l show False by (auto simp: live_def)
  qed
  have im: "timer_inv ?m"
  proof (rule timer_invI)
    fix g assume "live ?m g"
    with nl show "t_timer ?m = Some g" by blast
  next
    fix g assume "t_timer ?m = Some g"
    then have "t_timer st = Some g" by simp
    from timer_inv_validD [OF assms(1) this] show "g < length (handles ?m)" by simp
  qed
  have lm: "length (handles ?m) = length (handles st)" by simp
  have wm: "t_when ?m = t_when st" by simp
  have cm: "calls ?m = calls st" by simp
  show ?thesis
  proof (cases "now < t_when st")
    case True
    then have e: "st' = reschedule_timer ?m" using s' by (simp add: timeout_trigger_def)
    have i': "timer_inv st'" unfolding e by (rule timer_inv_reschedule_timer [OF im])
    have lv: "live st' (length (handles st))"
      unfolding e using live_reschedule_timer [OF im, of "length (handles st)"] lm by simp
    have fr: "calls st' = calls st \<and> t_timer st' = Some (length (handles st))
               \<and> h_when (handles st' ! length (handles st)) = t_when st"
      unfolding e using timer_reschedule_timer [of ?m] lm wm cm by simp
    from fr pending_calls_le [of st'] p have "length (calls st') + pending_calls st' \<le> length (calls st) + pending_calls st"
      by simp
    with i' lv fr True show ?thesis by simp
  next
    case False
    then have e: "st' = ?m\<lparr>t_timer := None, calls := calls st @ [now]\<rparr>"
      using s' by (simp add: timeout_trigger_def)
    have nl': "\<not> live st' g" for g using nl [of g] unfolding e by (simp add: live_def)
    have i': "timer_inv st'"
    proof (rule timer_invI)
      fix g assume "live st' g"
      with nl' show "t_timer st' = Some g" by blast
    next
      fix g assume "t_timer st' = Some g"
      then show "g < length (handles st')" unfolding e by simp
    qed
    have pc: "pending_calls st' = 0" using nl' by (simp add: pending_calls_def)
    have fr: "calls st' = calls st @ [now] \<and> t_timer st' = None" unfolding e by simp
    from i' pc fr p False show ?thesis by simp
  qed
qed

lemma timer_step_bound:
  assumes "timer_inv st"
  shows "timer_inv (timer_step e st)
         \<and> length (calls (timer_step e st)) + pending_calls (timer_step e st)
             \<le> length (calls st) + pending_calls st + reschedules [e]"
proof (cases e)
  case (Reschedule delay now)
  with reschedule_step [OF assms, of delay now] show ?thesis by simp
next
  case Cancel
  with cancel_step [OF assms] show ?thesis by simp
next
  case (Fire h now)
  show ?thesis
  proof (cases "fire h now st")
    case None
    with Fire assms show ?thesis by simp
  next
    case (Some st')
    with Fire fire_step [OF assms Some] show ?thesis by simp
  qed
qed

lemma reschedules_Cons: "reschedules (e # es) = reschedules [e] + reschedules es"
  by (cases e) simp_all

lemma timer_exec_bound:
  "timer_inv st \<Longrightarrow>
   timer_inv (timer_exec evs st)
   \<and> length (calls (timer_exec evs st)) + pending_calls (timer_exec evs st)
       \<le> length (calls st) + pending_calls st + reschedules evs"
proof (induction evs arbitrary: st)
  case Nil
  then show ?case by simp
next
  case (Cons e es)
  from timer_step_bound [OF Cons.prems, of e]
  have i: "timer_inv (timer_step e st)"
    and b: "length (calls (timer_step e st)) + pending_calls (timer_step e st)
             \<le> length (calls st) + pending_calls st + reschedules [e]" by blast+
  from Cons.IH [OF i] b reschedules_Cons [of e es] show ?case by simp
qed

lemma timer_inv_init: "timer_inv timeout_init \<and> pending_calls timeout_init = 0 \<and> calls timeout_init = []"
  by (simp add: timer_inv_def timeout_init_def live_def pending_calls_def)

lemma reschedule_cases:
  "(t_timer st = None \<or> (\<exists>h. t_timer st = Some h \<and> now + delay < h_when (handles st ! h)))
     \<and> reschedule delay now st = reschedule_timer (st\<lparr>t_when := now + delay\<rparr>)
   \<or> (\<exists>h. t_timer st = Some h \<and> h_when (handles st ! h) \<le> now + delay)
     \<and> reschedule delay now st = st\<lparr>t_when := now + delay\<rparr>"
  by (cases "t_timer st") (auto simp: reschedule_def Let_def)

lemma reschedule_armed:
  assumes "timer_inv st" "armed_ok st"
  shows "armed_ok (reschedule delay now st)
         \<and> (\<exists>h. t_timer (reschedule delay now st) = Some h)
         \<and> t_when (reschedule delay now st) = now + delay
         \<and> calls (reschedule delay now st) = calls st"
proof -
  let ?st1 = "st\<lparr>t_when := now + delay\<rparr>"
  have i1: "timer_inv ?st1" using assms(1) by (simp only: timer_inv_when)
  from reschedule_cases [of st now delay]
  have "reschedule delay now st = reschedule_timer ?st1
        \<or> (\<exists>h. t_timer st = Some h \<and> h_when (handles st ! h) \<le> now + delay)
           \<and> reschedule delay now st = ?st1" by blast
  then show ?thesis
  proof (elim disjE conjE)
    assume e: "reschedule delay now st = reschedule_timer ?st1"
    have l: "live (reschedule_timer ?st1) (length (handles ?st1))"
      using live_reschedule_timer [OF i1, of "length (handles ?st1)"] by simp
    with timer_reschedule_timer [of ?st1] show ?thesis
      unfolding e by (simp add: armed_ok_def)
  next
    assume k: "\<exists>h. t_timer st = Some h \<and> h_when (handles st ! h) \<le> now + delay"
      and e: "reschedule delay now st = ?st1"
    then obtain h where h: "t_timer st = Some h" "h_when (handles st ! h) \<le> now + delay" by blast
    with assms(2) have "live st h" by (simp add: armed_ok_def)
    with h show ?thesis unfolding e by (simp add: armed_ok_def live_when)
  qed
qed

lemma cancel_armed: "armed_ok (cancel st)"
  by (cases "t_timer st") (simp_all add: cancel_def armed_ok_def)

lemma fire_armed:
  assumes "timer_inv st" "fire h now st = Some st'"
  shows "armed_ok st'"
proof (cases "now < t_when st")
  case True
  from assms(2) have "st' = timeout_trigger now (st\<lparr>handles := (handles st)[h := (handles st ! h)\<lparr>h_run := True\<rparr>]\<rparr>)"
    by (auto simp: fire_def split: if_splits)
  with True have w: "t_when st' = t_when st"
    using timer_reschedule_timer [of "st\<lparr>handles := (handles st)[h := (handles st ! h)\<lparr>h_run := True\<rparr>]\<rparr>"]
    by (simp add: timeout_trigger_def)
  from fire_step [OF assms] True w show ?thesis by (simp add: armed_ok_def)
next
  case False
  with fire_step [OF assms] show ?thesis by (simp add: armed_ok_def)
qed

lemma timer_step_armed:
  assumes "timer_inv st" "armed_ok st"
  shows "armed_ok (timer_step e st)"
proof (cases e)
  case (Reschedule delay now)
  with reschedule_armed [OF assms, of delay now] show ?thesis by simp
next
  case Cancel
  then show ?thesis by (simp add: cancel_armed)
next
  case (Fire h now)
  show ?thesis
  proof (cases "fire h now st")
    case None
    with Fire assms(2) show ?thesis by simp
  next
    case (Some st')
    with Fire fire_armed [OF assms(1) Some] show ?thesis by simp
  qed
qed

lemma timer_exec_armed:
  "timer_inv st \<Longrightarrow> armed_ok st \<Longrightarrow> armed_ok (timer_exec evs st)"
proof (induction evs arbitrary: st)
  case Nil
  then show ?case by simp
next
  case (Cons e es)
  from timer_step_bound [OF Cons.prems(1), of e] have "timer_inv (timer_step e st)" by blast
  from Cons.IH [OF this timer_step_armed [OF Cons.prems]] show ?case by simp
qed

lemma timer_reachable:
  "timer_inv (timer_exec evs timeout_init)
   \<and> armed_ok (timer_exec evs timeout_init)
   \<and> length (calls (timer_exec evs timeout_init)) + pending_calls (timer_exec evs timeout_init)
       \<le> reschedules evs"
proof -
  have a: "armed_ok timeout_init" by (simp add: armed_ok_def timeout_init_def)
  from timer_inv_init have i: "timer_inv timeout_init" by blast
  from timer_exec_bound [OF i, of evs] timer_inv_init timer_exec_armed [OF i a, of evs]
  show ?thesis by simp
qed

lemma scenario_state:
  "t0 \<le> t1 \<Longrightarrow>
   timer_exec [Reschedule 5 t0, Reschedule 10 t1] timeout_init =
     \<lparr>t_timer = Some 0, t_when = t1 + 10,
      handles = [\<lparr>h_when = t0 + 5, h_cancelled = False, h_run = False\<rparr>], calls = []\<rparr>"
  by (simp add: reschedule_def reschedule_timer_def call_at_def timeout_init_def Let_def)

lemma scenario_fire1:
  "f1 < t1 + 10 \<Longrightarrow>
   fire 0 f1 \<lparr>t_timer = Some 0, t_when = t1 + 10,
      handles = [\<lparr>h_when = t0 + 5, h_cancelled = False, h_run = False\<rparr>], calls = []\<rparr>
   = Some \<lparr>t_timer = Some 1, t_when = t1 + 10,
      handles = [\<lparr>h_when = t0 + 5, h_cancelled = True, h_run = True\<rparr>,
                 \<lparr>h_when = t1 + 10, h_cancelled = False, h_run = False\<rparr>], calls = []\<rparr>"
  by (simp add: fire_def live_def timeout_trigger_def reschedule_timer_def call_at_def
        handle_cancel_def Let_def)

lemma scenario_fire2:
  "t1 + 10 \<le> f2 \<Longrightarrow>
   fire 1 f2 \<lparr>t_timer = Some 1, t_when = t1 + 10,
      handles = [\<lparr>h_when = t0 + 5, h_cancelled = True, h_run = True\<rparr>,
                 \<lparr>h_when = t1 + 10, h_cancelled = False, h_run = False\<rparr>], calls = []\<rparr>
   = Some \<lparr>t_timer = None, t_when = t1 + 10,
      handles = [\<lparr>h_when = t0 + 5, h_cancelled = True, h_run = True\<rparr>,
                 \<lparr>h_when = t1 + 10, h_cancelled = False, h_run = True\<rparr>], calls = [f2]\<rparr>"
  by (simp add: fire_def live_def timeout_trigger_def Let_def)

lemma timer_exec_append: "timer_exec (xs @ ys) st = timer_exec ys (timer_exec xs st)"
  by (induction xs arbitrary: st) simp_all

section \<open>One callback for each deadline\<close>

text \<open>
  Claim C6. In every state \<open>st\<close> that a timeout reaches from its creation by calls of
  \<open>reschedule\<close> and \<open>cancel\<close> and by the loop running its timers: the callback has been
  invoked at most once for each \<open>reschedule\<close>, a pending timer counting as one invocation to
  come; the only timer that the loop may still run is \<open>self._timer\<close>; when the loop runs it
  at a reading \<open>now\<close> before the deadline \<open>self._when\<close>, the callback is not invoked and a new
  timer is armed at the deadline; when \<open>now\<close> has reached the deadline, \<open>self._timer\<close> is
  cleared, the callback is invoked once, and no timer is left to run; and after every
  \<open>reschedule(delay)\<close> a timer is armed that is due no later than the new deadline
  \<open>now + delay\<close>. In particular, after \<open>reschedule(5)\<close> at reading \<open>t0\<close> and
  \<open>reschedule(10)\<close> at a later reading \<open>t1\<close>, the first timer, run at a reading \<open>f1\<close> before
  \<open>t1 + 10\<close>, invokes nothing and arms a timer at \<open>t1 + 10\<close>, whose run at \<open>f2\<close> invokes
  the callback: one invocation in all, and no timer left.
\<close>

theorem timeout_callback_once:
  "(st = timer_exec evs timeout_init \<longrightarrow>
      length (calls st) + pending_calls st \<le> reschedules evs
      \<and> (live st g \<longrightarrow> t_timer st = Some g)
      \<and> (fire h now st = Some st' \<and> now < t_when st \<longrightarrow>
            calls st' = calls st \<and> t_timer st' = Some (length (handles st))
            \<and> live st' (length (handles st))
            \<and> h_when (handles st' ! length (handles st)) = t_when st)
      \<and> (fire h now st = Some st' \<and> t_when st \<le> now \<longrightarrow>
            calls st' = calls st @ [now] \<and> t_timer st' = None \<and> pending_calls st' = 0)
      \<and> (\<exists>k. t_timer (reschedule delay now st) = Some k
            \<and> live (reschedule delay now st) k
            \<and> h_when (handles (reschedule delay now st) ! k) \<le> now + delay
            \<and> t_when (reschedule delay now st) = now + delay
            \<and> calls (reschedule delay now st) = calls st))
   \<and> (t0 \<le> t1 \<and> f1 < t1 + 10 \<and> t1 + 10 \<le> f2 \<longrightarrow>
        calls (timer_exec [Reschedule 5 t0, Reschedule 10 t1] timeout_init) = []
        \<and> (live (timer_exec [Reschedule 5 t0, Reschedule 10 t1] timeout_init) g \<longleftrightarrow> g = 0)
        \<and> calls (timer_exec [Reschedule 5 t0, Reschedule 10 t1, Fire 0 f1] timeout_init) = []
        \<and> (live (timer_exec [Reschedule 5 t0, Reschedule 10 t1, Fire 0 f1] timeout_init) g
              \<longleftrightarrow> g = 1)
        \<and> h_when (handles (timer_exec [Reschedule 5 t0, Reschedule 10 t1, Fire 0 f1] timeout_init) ! 1)
              = t1 + 10
        \<and> calls (timer_exec [Reschedule 5 t0, Reschedule 10 t1, Fire 0 f1, Fire 1 f2] timeout_init)
              = [f2]
        \<and> pending_calls (timer_exec [Reschedule 5 t0, Reschedule 10 t1, Fire 0 f1, Fire 1 f2] timeout_init)
              = 0)"
proof (intro conjI impI)
  assume s: "st = timer_exec evs timeout_init"
  from timer_reachable [of evs] s have inv: "timer_inv st" and arm: "armed_ok st"
    and bnd: "length (calls st) + pending_calls st \<le> reschedules evs" by simp_all
  show "length (calls st) + pending_calls st \<le> reschedules evs" by (rule bnd)
  show "t_timer st = Some g" if "live st g" using timer_inv_liveD [OF inv that] .
  show "calls st' = calls st" "t_timer st' = Some (length (handles st))"
       "live st' (length (handles st))" "h_when (handles st' ! length (handles st)) = t_when st"
    if "fire h now st = Some st' \<and> now < t_when st"
    using fire_step [OF inv, of h now st'] that by simp_all
  show "calls st' = calls st @ [now]" "t_timer st' = None" "pending_calls st' = 0"
    if "fire h now st = Some st' \<and> t_when st \<le> now"
    using fire_step [OF inv, of h now st'] that by simp_all
  from reschedule_armed [OF inv arm, of delay now]
  obtain k where k: "t_timer (reschedule delay now st) = Some k"
    and a: "armed_ok (reschedule delay now st)"
    and w: "t_when (reschedule delay now st) = now + delay"
    and c: "calls (reschedule delay now st) = calls st" by blast
  from a k w have "live (reschedule delay now st) k
      \<and> h_when (handles (reschedule delay now st) ! k) \<le> now + delay"
    by (simp add: armed_ok_def)
  with k w c show "\<exists>k. t_timer (reschedule delay now st) = Some k
            \<and> live (reschedule delay now st) k
            \<and> h_when (handles (reschedule delay now st) ! k) \<le> now + delay
            \<and> t_when (reschedule delay now st) = now + delay
            \<and> calls (reschedule delay now st) = calls st" by blast
next
  assume a: "t0 \<le> t1 \<and> f1 < t1 + 10 \<and> t1 + 10 \<le> f2"
  let ?s2 = "\<lparr>t_timer = Some 0, t_when = t1 + 10,
      handles = [\<lparr>h_when = t0 + 5, h_cancelled = False, h_run = False\<rparr>], calls = []\<rparr>"
  let ?s3 = "\<lparr>t_timer = Some 1, t_when = t1 + 10,
      handles = [\<lparr>h_when = t0 + 5, h_cancelled = True, h_run = True\<rparr>,
                 \<lparr>h_when = t1 + 10, h_cancelled = False, h_run = False\<rparr>], calls = []\<rparr>"
  let ?s4 = "\<lparr>t_timer = None, t_when = t1 + 10,
      handles = [\<lparr>h_when = t0 + 5, h_cancelled = True, h_run = True\<rparr>,
                 \<lparr>h_when = t1 + 10, h_cancelled = False, h_run = True\<rparr>], calls = [f2]\<rparr>"
  from a have e2: "timer_exec [Reschedule 5 t0, Reschedule 10 t1] timeout_init = ?s2"
    by (simp only: scenario_state)
  have "timer_exec ([Reschedule 5 t0, Reschedule 10 t1] @ [Fire 0 f1]) timeout_init
          = timer_exec [Fire 0 f1] ?s2"
    unfolding timer_exec_append e2 ..
  with a have e3: "timer_exec [Reschedule 5 t0, Reschedule 10 t1, Fire 0 f1] timeout_init = ?s3"
    using scenario_fire1 [of f1 t1 t0] by simp
  have "timer_exec ([Reschedule 5 t0, Reschedule 10 t1, Fire 0 f1] @ [Fire 1 f2]) timeout_init
          = timer_exec [Fire 1 f2] ?s3"
    unfolding timer_exec_append e3 ..
  with a have e4: "timer_exec [Reschedule 5 t0, Reschedule 10 t1, Fire 0 f1, Fire 1 f2] timeout_init = ?s4"
    using scenario_fire2 [of t1 f2 t0] by simp
  show "calls (timer_exec [Reschedule 5 t0, Reschedule 10 t1] timeout_init) = []"
    unfolding e2 by simp
  show "live (timer_exec [Reschedule 5 t0, Reschedule 10 t1] timeout_init) g \<longleftrightarrow> g = 0"
    unfolding e2 by (cases g) (simp_all add: live_def)
  show "calls (timer_exec [Reschedule 5 t0, Reschedule 10 t1, Fire 0 f1] timeout_init) = []"
    unfolding e3 by simp
  show "live (timer_exec [Reschedule 5 t0, Reschedule 10 t1, Fire 0 f1] timeout_init) g \<longleftrightarrow> g = 1"
    unfolding e3 by (cases g) (auto simp: live_def nth_Cons split: nat.splits)
  show "h_when (handles (timer_exec [Reschedule 5 t0, Reschedule 10 t1, Fire 0 f1] timeout_init) ! 1)
              = t1 + 10"
    unfolding e3 by simp
  show "calls (timer_exec [Reschedule 5 t0, Reschedule 10 t1, Fire 0 f1, Fire 1 f2] timeout_init) = [f2]"
    unfolding e4 by simp
  show "pending_calls (timer_exec [Reschedule 5 t0, Reschedule 10 t1, Fire 0 f1, Fire 1 f2] timeout_init) = 0"
    unfolding e4 by (auto simp: pending_calls_def live_def nth_Cons split: nat.splits)
qed

theorem timeout_callback_once_witness:
  "length (calls timer_two_reschedules) + pending_calls timer_two_reschedules
     \<le> reschedules [Reschedule 5 0, Reschedule 10 1]
   \<and> live timer_two_reschedules 0
   \<and> t_timer timer_two_reschedules = Some 0
   \<and> fire 0 5 timer_two_reschedules = Some (the (fire 0 5 timer_two_reschedules))
   \<and> 5 < t_when timer_two_reschedules
   \<and> calls (the (fire 0 5 timer_two_reschedules)) = calls timer_two_reschedules
   \<and> t_timer (the (fire 0 5 timer_two_reschedules)) = Some (length (handles timer_two_reschedules))
   \<and> live (the (fire 0 5 timer_two_reschedules)) (length (handles timer_two_reschedules))
   \<and> fire 1 11 timer_after_early_fire = Some (the (fire 1 11 timer_after_early_fire))
   \<and> t_when timer_after_early_fire \<le> 11
   \<and> calls (the (fire 1 11 timer_after_early_fire)) = calls timer_after_early_fire @ [11]
   \<and> t_timer (the (fire 1 11 timer_after_early_fire)) = None
   \<and> pending_calls (the (fire 1 11 timer_after_early_fire)) = 0
   \<and> (\<exists>k. t_timer (reschedule 3 5 timer_two_reschedules) = Some k
         \<and> live (reschedule 3 5 timer_two_reschedules) k
         \<and> h_when (handles (reschedule 3 5 timer_two_reschedules) ! k) \<le> 5 + 3)
   \<and> (0::real) \<le> 1 \<and> (5::real) < 1 + 10 \<and> (1::real) + 10 \<le> 11
   \<and> calls (timer_exec [Reschedule 5 0, Reschedule 10 1, Fire 0 5] timeout_init) = []
   \<and> calls (timer_exec [Reschedule 5 0, Reschedule 10 1, Fire 0 5, Fire 1 11] timeout_init) = [11]
   \<and> pending_calls (timer_exec [Reschedule 5 0, Reschedule 10 1, Fire 0 5, Fire 1 11] timeout_init) = 0"
proof -
  note a = timeout_callback_once [where st = timer_two_reschedules
      and evs = "[Reschedule 5 0, Reschedule 10 1]" and g = 0 and h = 0 and now = 5
      and st' = "the (fire 0 5 timer_two_reschedules)" and delay = 3
      and ?t0.0 = 0 and ?t1.0 = 1 and ?f1.0 = 5 and ?f2.0 = 11]
  note a1 = a [THEN conjunct1, THEN mp, OF timer_two_reschedules_def]
  have h1: "live timer_two_reschedules 0" by code_simp
  have h2: "fire 0 5 timer_two_reschedules \<noteq> None" by code_simp
  then have h3: "fire 0 5 timer_two_reschedules = Some (the (fire 0 5 timer_two_reschedules))" by simp
  have h4: "5 < t_when timer_two_reschedules" by code_simp
  note r1 = a1 [THEN conjunct1]
  note r2 = a1 [THEN conjunct2, THEN conjunct1, THEN mp, OF h1]
  note r3 = a1 [THEN conjunct2, THEN conjunct2, THEN conjunct1, THEN mp, OF conjI [OF h3 h4]]
  from a1 [THEN conjunct2, THEN conjunct2, THEN conjunct2, THEN conjunct2]
  have r5: "\<exists>k. t_timer (reschedule 3 5 timer_two_reschedules) = Some k
         \<and> live (reschedule 3 5 timer_two_reschedules) k
         \<and> h_when (handles (reschedule 3 5 timer_two_reschedules) ! k) \<le> 5 + 3" by blast
  note b = timeout_callback_once [where st = timer_after_early_fire
      and evs = "[Reschedule 5 0, Reschedule 10 1, Fire 0 5]" and h = 1 and now = 11
      and st' = "the (fire 1 11 timer_after_early_fire)"]
  note b1 = b [THEN conjunct1, THEN mp, OF timer_after_early_fire_def]
  have k2: "fire 1 11 timer_after_early_fire \<noteq> None" by code_simp
  then have k3: "fire 1 11 timer_after_early_fire = Some (the (fire 1 11 timer_after_early_fire))" by simp
  have k4: "t_when timer_after_early_fire \<le> 11" by code_simp
  note r4 = b1 [THEN conjunct2, THEN conjunct2, THEN conjunct2, THEN conjunct1, THEN mp, OF conjI [OF k3 k4]]
  have c1: "(0::real) \<le> 1" by simp
  have c2: "(5::real) < 1 + 10" by simp
  have c3: "(1::real) + 10 \<le> 11" by simp
  note sc = a [THEN conjunct2, THEN mp, OF conjI [OF c1 conjI [OF c2 c3]]]
  show ?thesis
    by (intro conjI r1 h1 r2 h3 h4 r3 [THEN conjunct1] r3 [THEN conjunct2, THEN conjunct1]
          r3 [THEN conjunct2, THEN conjunct2, THEN conjunct1]
          k3 k4 r4 [THEN conjunct1] r4 [THEN conjunct2, THEN conjunct1]
          r4 [THEN conjunct2, THEN conjunct2] r5 c1 c2 c3
          sc [THEN conjunct2, THEN conjunct2, THEN conjunct1]
          sc [THEN conjunct2, THEN conjunct2, THEN conjunct2, THEN conjunct2, THEN conjunct2, THEN conjunct1]
          sc [THEN conjunct2, THEN conjunct2, THEN conjunct2, THEN conjunct2, THEN conjunct2, THEN conjunct2])
qed

section \<open>Cleaning the debouncer\<close>






section \<open>Filtering an object\<close>




lemma tuple_lt_total:
  "prefix y \<noteq> (a, b) \<Longrightarrow> tuple_lt plt (a, b, p) y \<noteq> None"
  by (cases y) (auto simp: tuple_lt_def prefix_def)



lemma insort_Some_no_collision:
  assumes "\<forall>y\<in>set q. prefix y \<noteq> (a, b)"
  shows "\<exists>q'. insort_right (tuple_lt plt) q (a, b, p) = Some q'"
proof -
  from assms have "\<forall>y\<in>set q. tuple_lt plt (a, b, p) y \<noteq> None"
    by (intro ballI tuple_lt_total) blast
  with insort_right_total [of q "tuple_lt plt" "(a, b, p)"] show ?thesis by auto
qed






section \<open>What \<open>clean\<close> removes\<close>








section \<open>What \<open>filter\<close> does\<close>




end
